theory Spec2Isabelle
  imports Main
begin

section \<open>Memory attributes: \<^verbatim>\<open>src/ucm/mem_attr/mem_attr.c\<close>\<close>

text \<open>
  The status and memory-type enumerations come from headers that are not among the
  source files (\<^verbatim>\<open>ucs/type/status.h\<close>, \<^verbatim>\<open>ucs/memory/memory_type.h\<close>). Only the
  members that the sources name are constructors of their own; every other member of the
  enumeration is \<open>UCS_ERR_OTHER n\<close>, respectively \<open>UCS_MEMORY_TYPE_DEVICE n\<close>.
\<close>

datatype ucs_status_t =
    UCS_OK
  | UCS_ERR_NO_RESOURCE
  | UCS_ERR_IO_ERROR
  | UCS_ERR_INVALID_PARAM
  | UCS_ERR_INVALID_ADDR
  | UCS_ERR_OTHER nat

datatype ucs_memory_type_t =
    UCS_MEMORY_TYPE_HOST
  | UCS_MEMORY_TYPE_DEVICE nat

text \<open>
  \<^verbatim>\<open>struct ucm_mem_attr\<close> (\<^verbatim>\<open>mem_attr_int.h\<close>) holds a memory type and two function
  pointers. A function pointer is the address of a function: either one of the two static
  functions of \<^verbatim>\<open>mem_attr.c\<close>, or a function of an event installer, which is code outside
  this file and is looked up by number in a table the caller supplies (\<open>ucm_ext\<close>).
\<close>

datatype cmp_fn = FN_ucm_mem_attr_cmp_type | FN_ext_cmp nat

datatype destroy_fn = FN_ucm_mem_attr_destroy_host | FN_ext_destroy nat

record ucm_mem_attr_t =
  mem_type :: ucs_memory_type_t
  cmp :: cmp_fn
  destroy :: destroy_fn

text \<open>
  \<^verbatim>\<open>ucm_mem_attr_h\<close> is a pointer to the struct: null, the address of the static
  \<^verbatim>\<open>mem_attr_host\<close>, or the address of a descriptor an installer allocated. The
  installers' descriptors live in a store; an installer's struct begins with a
  \<^verbatim>\<open>ucm_mem_attr_t\<close> and carries private data \<open>'x\<close> after it.
\<close>

datatype ucm_mem_attr_h = NULL | PTR_mem_attr_host | PTR nat

type_synonym 'x mem = "nat \<rightharpoonup> ucm_mem_attr_t \<times> 'x"

definition mem_attr_host :: ucm_mem_attr_t where
  "mem_attr_host =
     \<lparr> mem_type = UCS_MEMORY_TYPE_HOST,
       cmp      = FN_ucm_mem_attr_cmp_type,
       destroy  = FN_ucm_mem_attr_destroy_host \<rparr>"

text \<open>Reading through a handle; \<open>None\<close> is a null or dangling pointer.\<close>

fun deref :: "'x mem \<Rightarrow> ucm_mem_attr_h \<Rightarrow> ucm_mem_attr_t option" where
  "deref m NULL = None"
| "deref m PTR_mem_attr_host = Some mem_attr_host"
| "deref m (PTR a) = map_option fst (m a)"

record 'x ucm_ext =
  ext_cmp :: "nat \<Rightarrow> 'x mem \<Rightarrow> ucm_mem_attr_h \<Rightarrow> ucm_mem_attr_h \<Rightarrow> int"
  ext_destroy :: "nat \<Rightarrow> ucm_mem_attr_h \<Rightarrow> 'x mem \<Rightarrow> 'x mem"

text \<open>
  An event installer (\<^verbatim>\<open>ucm_event_installer_t\<close>, declared in \<^verbatim>\<open>ucm/event/event.h\<close>,
  which is not among the source files): only its \<^verbatim>\<open>get_mem_attr\<close> member is used here,
  and it may be null. The function receives the address, the length and the current
  content of \<^verbatim>\<open>*mem_attr_p\<close>, and returns its status, the new content of
  \<^verbatim>\<open>*mem_attr_p\<close> and the store.
\<close>

type_synonym 'x get_mem_attr_fn =
  "nat \<Rightarrow> nat \<Rightarrow> ucm_mem_attr_h \<Rightarrow> 'x mem \<Rightarrow> ucs_status_t \<times> ucm_mem_attr_h \<times> 'x mem"

record 'x ucm_event_installer_t =
  get_mem_attr :: "'x get_mem_attr_fn option"

text \<open>\<^verbatim>\<open>ucm_mem_attr_cmp_type\<close>: 0 when the memory types are equal, 1 otherwise.\<close>

definition ucm_mem_attr_cmp_type ::
  "'x mem \<Rightarrow> ucm_mem_attr_h \<Rightarrow> ucm_mem_attr_h \<Rightarrow> int option" where
  "ucm_mem_attr_cmp_type m mem_attr1 mem_attr2 =
     (case deref m mem_attr1 of
        None \<Rightarrow> None
      | Some a \<Rightarrow>
          (case deref m mem_attr2 of
             None \<Rightarrow> None
           | Some b \<Rightarrow> Some (if mem_type a = mem_type b then 0 else 1)))"

text \<open>\<^verbatim>\<open>ucm_mem_attr_destroy_host\<close>: nothing to be done.\<close>

definition ucm_mem_attr_destroy_host :: "ucm_mem_attr_h \<Rightarrow> 'x mem \<Rightarrow> 'x mem" where
  "ucm_mem_attr_destroy_host mem_attr m = m"

text \<open>Calls through the two function pointers of a descriptor.\<close>

fun call_cmp ::
  "'x ucm_ext \<Rightarrow> cmp_fn \<Rightarrow> 'x mem \<Rightarrow> ucm_mem_attr_h \<Rightarrow> ucm_mem_attr_h \<Rightarrow> int option" where
  "call_cmp ext FN_ucm_mem_attr_cmp_type m h1 h2 = ucm_mem_attr_cmp_type m h1 h2"
| "call_cmp ext (FN_ext_cmp n) m h1 h2 = Some (ext_cmp ext n m h1 h2)"

fun call_destroy ::
  "'x ucm_ext \<Rightarrow> destroy_fn \<Rightarrow> ucm_mem_attr_h \<Rightarrow> 'x mem \<Rightarrow> 'x mem" where
  "call_destroy ext FN_ucm_mem_attr_destroy_host h m = ucm_mem_attr_destroy_host h m"
| "call_destroy ext (FN_ext_destroy n) h m = ext_destroy ext n h m"

text \<open>
  The loop of \<^verbatim>\<open>ucm_mem_attr_get\<close> over \<^verbatim>\<open>ucm_event_installer_list\<close>. The result is
  \<open>Inl\<close> when the loop returns from the function (with \<^verbatim>\<open>UCS_OK\<close>), and \<open>Inr failure\<close>
  when it runs to the end of the list.
\<close>

fun ucm_mem_attr_get_loop ::
  "'x ucm_event_installer_t list \<Rightarrow> nat \<Rightarrow> nat \<Rightarrow> bool \<Rightarrow> ucm_mem_attr_h \<Rightarrow> 'x mem
     \<Rightarrow> (ucs_status_t + bool) \<times> ucm_mem_attr_h \<times> 'x mem" where
  "ucm_mem_attr_get_loop [] address len failure mem_attr_p m =
     (Inr failure, mem_attr_p, m)"
| "ucm_mem_attr_get_loop (event_installer # rest) address len failure mem_attr_p m =
     (case get_mem_attr event_installer of
        None \<Rightarrow> ucm_mem_attr_get_loop rest address len failure mem_attr_p m
      | Some f \<Rightarrow>
          (case f address len mem_attr_p m of
             (status, mem_attr_p', m') \<Rightarrow>
               if status = UCS_OK then (Inl UCS_OK, mem_attr_p', m')
               else ucm_mem_attr_get_loop rest address len
                      (if status \<noteq> UCS_ERR_INVALID_ADDR then True else failure)
                      mem_attr_p' m'))"

definition ucm_mem_attr_get ::
  "'x ucm_event_installer_t list \<Rightarrow> nat \<Rightarrow> nat \<Rightarrow> ucm_mem_attr_h \<Rightarrow> 'x mem
     \<Rightarrow> ucs_status_t \<times> ucm_mem_attr_h \<times> 'x mem" where
  "ucm_mem_attr_get ucm_event_installer_list address len mem_attr_p m =
     (case ucm_mem_attr_get_loop ucm_event_installer_list address len False mem_attr_p m of
        (Inl status, mem_attr_p', m') \<Rightarrow> (status, mem_attr_p', m')
      | (Inr failure, mem_attr_p', m') \<Rightarrow>
          if failure then (UCS_ERR_NO_RESOURCE, mem_attr_p', m')
          else (UCS_OK, PTR_mem_attr_host, m'))"

definition ucm_mem_attr_get_type :: "'x mem \<Rightarrow> ucm_mem_attr_h \<Rightarrow> ucs_memory_type_t option" where
  "ucm_mem_attr_get_type m mem_attr = map_option mem_type (deref m mem_attr)"

definition ucm_mem_attr_cmp ::
  "'x ucm_ext \<Rightarrow> 'x mem \<Rightarrow> ucm_mem_attr_h \<Rightarrow> ucm_mem_attr_h \<Rightarrow> int option" where
  "ucm_mem_attr_cmp ext m mem_attr1 mem_attr2 =
     (case ucm_mem_attr_cmp_type m mem_attr1 mem_attr2 of
        None \<Rightarrow> None
      | Some t \<Rightarrow>
          if t \<noteq> 0 then Some 1
          else (case deref m mem_attr1 of
                  None \<Rightarrow> None
                | Some a \<Rightarrow> call_cmp ext (cmp a) m mem_attr1 mem_attr2))"

definition ucm_mem_attr_destroy ::
  "'x ucm_ext \<Rightarrow> ucm_mem_attr_h \<Rightarrow> 'x mem \<Rightarrow> 'x mem option" where
  "ucm_mem_attr_destroy ext mem_attr m =
     (if mem_attr \<noteq> NULL
      then (case deref m mem_attr of
              None \<Rightarrow> None
            | Some a \<Rightarrow> Some (call_destroy ext (destroy a) mem_attr m))
      else Some m)"

text \<open>Destroying the same handle \<open>n\<close> times in a row, as the tests do with the host descriptor.\<close>

fun ucm_mem_attr_destroy_times ::
  "nat \<Rightarrow> 'x ucm_ext \<Rightarrow> ucm_mem_attr_h \<Rightarrow> 'x mem \<Rightarrow> 'x mem option" where
  "ucm_mem_attr_destroy_times 0 ext mem_attr m = Some m"
| "ucm_mem_attr_destroy_times (Suc n) ext mem_attr m =
     (case ucm_mem_attr_destroy ext mem_attr m of
        None \<Rightarrow> None
      | Some m' \<Rightarrow> ucm_mem_attr_destroy_times n ext mem_attr m')"

text \<open>Concrete inputs: two installers, a store with two device descriptors, and the
  functions of their installer.\<close>

definition ex_installers :: "unit ucm_event_installer_t list" where
  "ex_installers =
     [\<lparr> get_mem_attr = None \<rparr>,
      \<lparr> get_mem_attr = Some (\<lambda>address len out m. (UCS_ERR_INVALID_ADDR, out, m)) \<rparr>]"

definition ex_mem :: "nat mem" where
  "ex_mem = [16 \<mapsto> (\<lparr> mem_type = UCS_MEMORY_TYPE_DEVICE 1, cmp = FN_ext_cmp 0,
                         destroy = FN_ext_destroy 0 \<rparr>, 7),
             32 \<mapsto> (\<lparr> mem_type = UCS_MEMORY_TYPE_DEVICE 1, cmp = FN_ext_cmp 0,
                         destroy = FN_ext_destroy 0 \<rparr>, 8)]"

definition ex_ext :: "nat ucm_ext" where
  "ex_ext = \<lparr> ext_cmp = (\<lambda>n m h1 h2. if h1 = h2 then 0 else 1),
              ext_destroy = (\<lambda>n h m. case h of PTR a \<Rightarrow> m(a := None) | _ \<Rightarrow> m) \<rparr>"

section \<open>The registration cache\<close>

text \<open>
  The registration cache itself (\<^verbatim>\<open>ucs/memory/rcache.c\<close>: \<^verbatim>\<open>ucs_rcache_get\<close>,
  \<^verbatim>\<open>ucs_rcache_region_put\<close>, the event handler) is not among the source files; only its
  test \<^verbatim>\<open>test/gtest/ucs/test_rcache.cc\<close> is. The definitions of this section are
  modelled from the specification, sections 3 to 4.5, one operation at a time, each
  executed as a whole (the specification serialises them on the page-table write lock;
  an event is handled when it arrives, the first of the two policies of section 4.4).
  The page table and the invalidation queue are read off the flags of the region records:
  a region is in the page table when it carries \<open>IN_PGTABLE\<close>, and on the invalidation
  queue when it carries \<open>INVALID\<close>. The identity of a region is its \<open>rid\<close>, the index of
  its record. The user payload of a region and the user argument of \<open>get\<close> are opaque to
  the cache and are left out, and so is the deregister callback, which the cache calls
  when it frees a record and whose effect is outside the cache.
\<close>

datatype access = PROT_READ | PROT_WRITE | PROT_EXEC

datatype mem_kind = KIND_HOST | KIND_DEVICE nat nat

datatype region_flag = IN_PGTABLE | INVALID | REGISTERING

record region =
  rid :: nat
  start_addr :: nat
  end_addr :: nat
  prot :: "access set"
  mem_kind :: mem_kind
  refcount :: nat
  flags :: "region_flag set"

record rcache =
  alignment :: nat
  regions :: "region list"
  next_rid :: nat

text \<open>
  The collaborators of the cache: the classification interface, the protection the
  operating system reports for each page, and the user's register callback.
\<close>

record rcache_env =
  classify :: "nat \<Rightarrow> nat \<Rightarrow> ucs_status_t + mem_kind"
  page_size :: nat
  os_prot :: "nat \<Rightarrow> access set"
  mem_reg :: "region \<Rightarrow> ucs_status_t"

definition empty_cache :: "nat \<Rightarrow> rcache" where
  \<comment> \<open>Modelled from the spec: \<open>create\<close> of section 4.6, which is not among the source
      files, returns a cache with an empty page table and an empty queue.\<close>
  "empty_cache a = \<lparr> alignment = a, regions = [], next_rid = 0 \<rparr>"

definition align_down :: "nat \<Rightarrow> nat \<Rightarrow> nat" where
  \<comment> \<open>Modelled from the spec: the normalisation of section 4.5 (start aligned down).\<close>
  "align_down a x = (x div a) * a"

definition align_up :: "nat \<Rightarrow> nat \<Rightarrow> nat" where
  \<comment> \<open>Modelled from the spec: the normalisation of section 4.5 (end aligned up).\<close>
  "align_up a x = ((x + a - 1) div a) * a"

definition in_pgtable :: "region \<Rightarrow> bool" where
  "in_pgtable r = (IN_PGTABLE \<in> flags r)"

definition intersects :: "region \<Rightarrow> nat \<Rightarrow> nat \<Rightarrow> bool" where
  "intersects r lo hi = (start_addr r < hi \<and> lo < end_addr r)"

definition pgtable :: "rcache \<Rightarrow> region list" where
  "pgtable c = filter in_pgtable (regions c)"

definition lookup_containing :: "rcache \<Rightarrow> nat \<Rightarrow> region option" where
  \<comment> \<open>Modelled from the spec: \<open>lookup_containing(addr)\<close> of section 4.1; the page table
      is not among the source files.\<close>
  "lookup_containing c a = find (\<lambda>r. start_addr r \<le> a \<and> a < end_addr r) (pgtable c)"

definition range_iter :: "rcache \<Rightarrow> nat \<Rightarrow> nat \<Rightarrow> region list" where
  \<comment> \<open>Modelled from the spec: \<open>range_iter(lo, hi)\<close> of section 4.1; the page table is
      not among the source files. The regions come in the order of the records, not sorted
      by address: nothing below depends on the order.\<close>
  "range_iter c lo hi = filter (\<lambda>r. intersects r lo hi) (pgtable c)"

definition invalidate :: "region \<Rightarrow> region" where
  "invalidate r = r\<lparr> flags := (flags r - {IN_PGTABLE}) \<union> {INVALID} \<rparr>"

definition invalidate_range :: "rcache \<Rightarrow> nat \<Rightarrow> nat \<Rightarrow> rcache" where
  \<comment> \<open>Modelled from the spec: the event handler of section 4.4 step 2 and
      \<open>invalidate_range\<close> of section 6, which are not among the source files. Every region
      of the page table that intersects the interval loses \<open>IN_PGTABLE\<close> and gains
      \<open>INVALID\<close>. Nothing is deregistered here.\<close>
  "invalidate_range c lo hi =
     c\<lparr> regions := map (\<lambda>r. if in_pgtable r \<and> intersects r lo hi then invalidate r else r)
                        (regions c) \<rparr>"

definition drain :: "rcache \<Rightarrow> rcache" where
  \<comment> \<open>Modelled from the spec: the drain of sections 4.3 and 4.5 step 7, which is not
      among the source files. Every queued region whose refcount is zero is deregistered
      and its record freed.\<close>
  "drain c =
     c\<lparr> regions := filter (\<lambda>r. \<not> (INVALID \<in> flags r \<and> refcount r = 0)) (regions c) \<rparr>"

definition hold :: "rcache \<Rightarrow> nat \<Rightarrow> rcache" where
  "hold c k =
     c\<lparr> regions := map (\<lambda>r. if rid r = k then r\<lparr> refcount := Suc (refcount r) \<rparr> else r)
                        (regions c) \<rparr>"

definition os_supports :: "rcache_env \<Rightarrow> nat \<Rightarrow> nat \<Rightarrow> access set \<Rightarrow> bool" where
  \<comment> \<open>Modelled from the spec: the OS-protection check of section 4.5 step 4, over every
      page that meets the interval.\<close>
  "os_supports env lo hi p =
     list_all (\<lambda>pg. p \<subseteq> os_prot env pg)
       [lo div page_size env ..< (hi + page_size env - 1) div page_size env]"

definition merged_start :: "nat \<Rightarrow> region list \<Rightarrow> nat" where
  "merged_start s rs = fold (\<lambda>r a. min a (start_addr r)) rs s"

definition merged_end :: "nat \<Rightarrow> region list \<Rightarrow> nat" where
  "merged_end e rs = fold (\<lambda>r a. max a (end_addr r)) rs e"

definition merged_prot :: "access set \<Rightarrow> region list \<Rightarrow> access set" where
  "merged_prot p rs = fold (\<lambda>r a. a \<union> prot r) rs p"

definition is_hit :: "region \<Rightarrow> nat \<Rightarrow> nat \<Rightarrow> access set \<Rightarrow> mem_kind \<Rightarrow> bool" where
  "is_hit r s e p k =
     (start_addr r \<le> s \<and> e \<le> end_addr r \<and> p \<subseteq> prot r \<and> mem_kind r = k)"

definition fast_path ::
  "rcache \<Rightarrow> nat \<Rightarrow> nat \<Rightarrow> access set \<Rightarrow> mem_kind \<Rightarrow> region option" where
  \<comment> \<open>Modelled from the spec: the fast path of \<open>get\<close>, section 4.5.\<close>
  "fast_path c s e p k =
     (case lookup_containing c s of
        None \<Rightarrow> None
      | Some r \<Rightarrow> if is_hit r s e p k then Some r else None)"

definition new_region ::
  "rcache \<Rightarrow> nat \<Rightarrow> nat \<Rightarrow> access set \<Rightarrow> mem_kind \<Rightarrow> region" where
  "new_region c s e p k =
     \<lparr> rid = next_rid c, start_addr = s, end_addr = e, prot = p, mem_kind = k,
       refcount = 0, flags = {IN_PGTABLE, REGISTERING} \<rparr>"

definition insert_region :: "rcache \<Rightarrow> region \<Rightarrow> rcache" where
  "insert_region c r = c\<lparr> regions := regions c @ [r] \<rparr>"

definition finish_register :: "rcache \<Rightarrow> nat \<Rightarrow> rcache" where
  "finish_register c k =
     c\<lparr> regions := map (\<lambda>x. if rid x = k
                               then x\<lparr> flags := flags x - {REGISTERING}, refcount := 1 \<rparr>
                               else x) (regions c),
        next_rid := Suc (next_rid c) \<rparr>"

definition remove_region :: "rcache \<Rightarrow> nat \<Rightarrow> rcache" where
  "remove_region c k = c\<lparr> regions := filter (\<lambda>x. rid x \<noteq> k) (regions c) \<rparr>"

definition register_region ::
  "rcache_env \<Rightarrow> rcache \<Rightarrow> nat \<Rightarrow> nat \<Rightarrow> region \<Rightarrow> (ucs_status_t + nat) \<times> rcache" where
  \<comment> \<open>Modelled from the spec: steps 5 to 7 of \<open>get\<close>, section 4.5. Every region of the
      page table that intersects the request \<open>[s, e)\<close> is invalidated, the new region is
      inserted in \<open>REGISTERING\<close> state, and the register callback runs. On success the
      region loses \<open>REGISTERING\<close> and gets refcount 1; on failure its record is removed and
      the call fails with io-error. An index is used up only by a registration that
      succeeds, as the test's callback numbers its regions. The queue is drained on both
      ways out: the test \<^verbatim>\<open>merge_invalid_prot_slow\<close> finds the overlapped region
      deregistered right after the failed call.\<close>
  "register_region env c s e r =
     (let c1 = insert_region (invalidate_range c s e) r
      in if mem_reg env r = UCS_OK
         then (Inr (rid r), drain (finish_register c1 (rid r)))
         else (Inl UCS_ERR_IO_ERROR, drain (remove_region c1 (rid r))))"

definition slow_merge ::
  "rcache_env \<Rightarrow> rcache \<Rightarrow> nat \<Rightarrow> nat \<Rightarrow> access set \<Rightarrow> mem_kind \<Rightarrow> region list
     \<Rightarrow> (ucs_status_t + nat) \<times> rcache" where
  \<comment> \<open>Modelled from the spec: the merge rule, step 4 of \<open>get\<close>, section 4.5. The merge
      takes the overlapping regions of the request's own kind (merging across kinds is
      forbidden). When the merged interval fails the OS-protection check with the merged
      protection, the result is the request alone with its own protection; when the
      request's protection is not supported either, the call fails with permission-error,
      which the interface reports as io-error. No region is merged into a result that
      is the request alone, whatever its protection: scenario 5 and the test
      \<^verbatim>\<open>merge_invalid_prot\<close> keep the new region to the request although the protection
      of the overlapped region equals the request's. Every region that intersects the request
      leaves the page table, absorbed or not: the page table stays disjoint (section 3,
      invariant 1), scenario 5 of section 8 leaves no prior region in the page table, and
      the tests \<^verbatim>\<open>merge_with_unwritable\<close> and \<^verbatim>\<open>merge_invalid_prot_slow\<close> find the
      overlapped region out of the page table, the latter after a failed call.\<close>
  "slow_merge env c s e p k overl =
     (let same = filter (\<lambda>r. mem_kind r = k) overl;
          ms = merged_start s same;
          me = merged_end e same;
          mp = merged_prot p same
      in if os_supports env ms me mp
         then register_region env c s e (new_region c ms me mp k)
         else if os_supports env s e p
         then register_region env c s e (new_region c s e p k)
         else (Inl UCS_ERR_IO_ERROR, drain (invalidate_range c s e)))"

definition slow_path ::
  "rcache_env \<Rightarrow> rcache \<Rightarrow> nat \<Rightarrow> nat \<Rightarrow> access set \<Rightarrow> mem_kind
     \<Rightarrow> (ucs_status_t + nat) \<times> rcache" where
  \<comment> \<open>Modelled from the spec: the slow path of \<open>get\<close>, steps 2 and 3 of section 4.5.\<close>
  "slow_path env c s e p k =
     (case range_iter c s e of
        [] \<Rightarrow> register_region env c s e (new_region c s e p k)
      | [r] \<Rightarrow>
          if is_hit r s e p k then (Inr (rid r), hold c (rid r))
          else slow_merge env c s e p k [r]
      | overl \<Rightarrow> slow_merge env c s e p k overl)"

definition get ::
  "rcache_env \<Rightarrow> rcache \<Rightarrow> nat \<Rightarrow> nat \<Rightarrow> access set \<Rightarrow> (ucs_status_t + nat) \<times> rcache" where
  \<comment> \<open>Modelled from the spec: \<open>get\<close> of section 4.5 (\<^verbatim>\<open>ucs_rcache_get\<close>, which is not
      among the source files). The result is the identity of the region, or the error.\<close>
  "get env c addr len p =
     (if len = 0 then (Inl UCS_ERR_INVALID_PARAM, c)
      else
        (case classify env addr len of
           Inl err \<Rightarrow> (Inl err, c)
         | Inr k \<Rightarrow>
             (let s = align_down (alignment c) addr;
                  e = align_up (alignment c) (addr + len)
              in case fast_path c s e p k of
                   Some r \<Rightarrow> (Inr (rid r), hold c (rid r))
                 | None \<Rightarrow> slow_path env c s e p k)))"

definition put :: "rcache \<Rightarrow> nat \<Rightarrow> rcache" where
  \<comment> \<open>Modelled from the spec: \<open>put\<close> of section 4.5 (\<^verbatim>\<open>ucs_rcache_region_put\<close>, which
      is not among the source files). A put of a region that is not alive or not held is
      outside the caller's contract and changes nothing.\<close>
  "put c k =
     (case find (\<lambda>r. rid r = k) (regions c) of
        None \<Rightarrow> c
      | Some r \<Rightarrow>
          if refcount r = 0 then c
          else if INVALID \<in> flags r \<and> refcount r = 1 then remove_region c k
          else c\<lparr> regions := map (\<lambda>x. if rid x = k then x\<lparr> refcount := refcount x - 1 \<rparr>
                                         else x) (regions c) \<rparr>)"

text \<open>
  The invariants of section 3 of the specification, on the states between operations: the
  indices of the records are distinct and below the next index, an interval is not empty,
  no region is left in \<open>REGISTERING\<close> state, and a region is in the page table exactly
  when it is not invalid (invariants 2, 3 and 5); the regions of the page table are
  pairwise disjoint (invariant 1).
\<close>

definition region_ok :: "rcache \<Rightarrow> region \<Rightarrow> bool" where
  "region_ok c r =
     (rid r < next_rid c \<and> start_addr r < end_addr r \<and> REGISTERING \<notin> flags r \<and>
      (IN_PGTABLE \<in> flags r) = (INVALID \<notin> flags r))"

definition rcache_wf :: "rcache \<Rightarrow> bool" where
  "rcache_wf c =
     (0 < alignment c \<and> distinct (map rid (regions c)) \<and> list_all (region_ok c) (regions c))"

definition disjoint_regions :: "region \<Rightarrow> region \<Rightarrow> bool" where
  "disjoint_regions r1 r2 = (end_addr r1 \<le> start_addr r2 \<or> end_addr r2 \<le> start_addr r1)"

definition pgtable_disjoint :: "rcache \<Rightarrow> bool" where
  "pgtable_disjoint c =
     list_all (\<lambda>r1. list_all (\<lambda>r2. rid r1 = rid r2 \<or> disjoint_regions r1 r2) (pgtable c))
       (pgtable c)"

text \<open>
  The region that a registration that succeeded leaves in the cache, and the cache after
  it: the regions that intersect the request \<open>[s, e)\<close> invalidated, the new region
  appended, the queue drained.
\<close>

definition created_region ::
  "rcache \<Rightarrow> nat \<Rightarrow> nat \<Rightarrow> access set \<Rightarrow> mem_kind \<Rightarrow> region" where
  "created_region c s e p k =
     \<lparr> rid = next_rid c, start_addr = s, end_addr = e, prot = p, mem_kind = k,
       refcount = 1, flags = {IN_PGTABLE} \<rparr>"

definition after_create ::
  "rcache \<Rightarrow> nat \<Rightarrow> nat \<Rightarrow> region \<Rightarrow> rcache" where
  "after_create c s e r =
     drain ((invalidate_range c s e)
              \<lparr> regions := regions (invalidate_range c s e) @ [r],
                next_rid := Suc (next_rid c) \<rparr>)"

definition offered_region ::
  "rcache_env \<Rightarrow> rcache \<Rightarrow> nat \<Rightarrow> nat \<Rightarrow> access set \<Rightarrow> mem_kind \<Rightarrow> region" where
  \<comment> \<open>Modelled from the spec: the region that a \<open>get\<close> which misses hands to the register
      callback (steps 3a and 4 of section 4.5): the merged region when the OS-protection
      check passes on it, else the request alone. With no overlapping region the two are
      the same.\<close>
  "offered_region env c s e p k =
     (let same = filter (\<lambda>r. mem_kind r = k) (range_iter c s e);
          m = new_region c (merged_start s same) (merged_end e same) (merged_prot p same) k
      in if os_supports env (start_addr m) (end_addr m) (prot m) then m
         else new_region c s e p k)"

text \<open>
  A caller that makes \<open>n\<close> pairs of a \<open>get\<close> and the \<open>put\<close> of the region it returned, with
  the same arguments each time, and the refcount of the region with a given index.
\<close>

fun get_put_pairs ::
  "nat \<Rightarrow> rcache_env \<Rightarrow> rcache \<Rightarrow> nat \<Rightarrow> nat \<Rightarrow> access set
     \<Rightarrow> (ucs_status_t + nat) list \<times> rcache" where
  "get_put_pairs 0 env c addr len p = ([], c)"
| "get_put_pairs (Suc n) env c addr len p =
     (case get env c addr len p of
        (Inl err, c1) \<Rightarrow>
          (case get_put_pairs n env c1 addr len p of (rs, c2) \<Rightarrow> (Inl err # rs, c2))
      | (Inr k, c1) \<Rightarrow>
          (case get_put_pairs n env (put c1 k) addr len p of (rs, c2) \<Rightarrow> (Inr k # rs, c2)))"

definition refcount_of :: "rcache \<Rightarrow> nat \<Rightarrow> nat option" where
  "refcount_of c k = map_option refcount (find (\<lambda>r. rid r = k) (regions c))"

text \<open>
  The register callback of the test fixture (\<^verbatim>\<open>test_rcache::mem_reg\<close>, lines 104 to 123
  of \<^verbatim>\<open>test_rcache.cc\<close>): for host memory it fails with io-error when the protection of
  the pages under the region, as \<^verbatim>\<open>ucs_get_mem_prot\<close> reports it, does not contain the
  region's protection. The tests run on host memory; pages have 4 bytes here.
\<close>

definition test_env :: "(nat \<Rightarrow> access set) \<Rightarrow> rcache_env" where
  "test_env os =
     \<lparr> classify = (\<lambda>addr len. Inr KIND_HOST),
       page_size = 4,
       os_prot = os,
       mem_reg = (\<lambda>r. if mem_kind r = KIND_HOST \<and>
                          \<not> list_all (\<lambda>pg. prot r \<subseteq> os pg)
                               [start_addr r div 4 ..< (end_addr r + 3) div 4]
                       then UCS_ERR_IO_ERROR else UCS_OK) \<rparr>"

text \<open>Concrete inputs: read-write host memory, a callback that succeeds and one that fails
  as \<^verbatim>\<open>test_rcache_no_register::mem_reg\<close> does, and a cache holding one region.\<close>

definition ex_RW :: "access set" where
  "ex_RW = {PROT_READ, PROT_WRITE}"

definition ex_env_ok :: rcache_env where
  "ex_env_ok = \<lparr> classify = (\<lambda>addr len. Inr KIND_HOST), page_size = 4,
                 os_prot = (\<lambda>pg. {PROT_READ, PROT_WRITE}), mem_reg = (\<lambda>r. UCS_OK) \<rparr>"

definition ex_env_fail :: rcache_env where
  "ex_env_fail = \<lparr> classify = (\<lambda>addr len. Inr KIND_HOST), page_size = 4,
                   os_prot = (\<lambda>pg. {PROT_READ, PROT_WRITE}),
                   mem_reg = (\<lambda>r. UCS_ERR_IO_ERROR) \<rparr>"

text \<open>A callback that fails on the region \<open>[0, 12)\<close> only.\<close>

definition ex_env_fail_here :: rcache_env where
  "ex_env_fail_here = \<lparr> classify = (\<lambda>addr len. Inr KIND_HOST), page_size = 4,
                        os_prot = (\<lambda>pg. {PROT_READ, PROT_WRITE}),
                        mem_reg = (\<lambda>r. if start_addr r = 0 \<and> end_addr r = 12
                                        then UCS_ERR_IO_ERROR else UCS_OK) \<rparr>"

definition ex_region0 :: region where
  "ex_region0 = \<lparr> rid = 0, start_addr = 0, end_addr = 8, prot = {PROT_READ, PROT_WRITE},
                  mem_kind = KIND_HOST, refcount = 0, flags = {IN_PGTABLE} \<rparr>"

definition ex_cache1 :: rcache where
  "ex_cache1 = \<lparr> alignment = 4, regions = [ex_region0], next_rid = 1 \<rparr>"

definition ex_cache_held :: rcache where
  "ex_cache_held = \<lparr> alignment = 4, regions = [ex_region0\<lparr> refcount := 1 \<rparr>], next_rid = 1 \<rparr>"


section \<open>Properties of the memory attributes\<close>

lemma ucm_mem_attr_get_loop_status:
  "ucm_mem_attr_get_loop insts address len failure out m = (Inl st, out', m') \<Longrightarrow> st = UCS_OK"
  by (induction insts arbitrary: failure out m)
     (auto split: option.splits prod.splits if_splits)

lemma ucm_mem_attr_get_loop_not_found:
  assumes "\<forall>inst \<in> set insts. \<forall>f. get_mem_attr inst = Some f \<longrightarrow>
             (\<forall>out m. fst (f address len out m) = UCS_ERR_INVALID_ADDR)"
  shows "\<exists>out' m'. ucm_mem_attr_get_loop insts address len failure out m = (Inr failure, out', m')"
  using assms
proof (induction insts arbitrary: out m)
  case Nil
  then show ?case by simp
next
  case (Cons inst rest)
  show ?case
  proof (cases "get_mem_attr inst")
    case None
    with Cons show ?thesis by simp
  next
    case (Some f)
    obtain st out1 m1 where f: "f address len out m = (st, out1, m1)"
      by (cases "f address len out m") auto
    from Cons.prems Some have "fst (f address len out m) = UCS_ERR_INVALID_ADDR"
      by simp
    with f have st: "st = UCS_ERR_INVALID_ADDR" by simp
    from Cons.prems have "\<forall>inst \<in> set rest. \<forall>f. get_mem_attr inst = Some f \<longrightarrow>
             (\<forall>out m. fst (f address len out m) = UCS_ERR_INVALID_ADDR)" by simp
    from Cons.IH[OF this, of out1 m1] show ?thesis
      using Some f st by simp
  qed
qed

text \<open>
  C8. \<^verbatim>\<open>ucm_mem_attr_get\<close> returns only \<^verbatim>\<open>UCS_OK\<close> or \<^verbatim>\<open>UCS_ERR_NO_RESOURCE\<close>, so an
  installer's \<^verbatim>\<open>UCS_ERR_INVALID_ADDR\<close> never reaches the caller. When every installer that
  implements \<^verbatim>\<open>get_mem_attr\<close> answers \<^verbatim>\<open>UCS_ERR_INVALID_ADDR\<close> for the range (which
  includes the case that none implements it, and the empty installer list), the call
  returns \<^verbatim>\<open>UCS_OK\<close> and the output is the address of the static host descriptor.
\<close>

theorem ucm_mem_attr_get_not_found_is_host:
  "fst (ucm_mem_attr_get insts address len out m) \<in> {UCS_OK, UCS_ERR_NO_RESOURCE} \<and>
   ((\<forall>inst \<in> set insts. \<forall>f. get_mem_attr inst = Some f \<longrightarrow>
        (\<forall>out m. fst (f address len out m) = UCS_ERR_INVALID_ADDR)) \<longrightarrow>
    (\<exists>m'. ucm_mem_attr_get insts address len out m = (UCS_OK, PTR_mem_attr_host, m')))"
proof (intro conjI impI)
  show "fst (ucm_mem_attr_get insts address len out m) \<in> {UCS_OK, UCS_ERR_NO_RESOURCE}"
  proof (cases "ucm_mem_attr_get_loop insts address len False out m")
    case (fields r out' m')
    then show ?thesis
      by (cases r) (auto simp: ucm_mem_attr_get_def dest: ucm_mem_attr_get_loop_status)
  qed
next
  assume "\<forall>inst \<in> set insts. \<forall>f. get_mem_attr inst = Some f \<longrightarrow>
        (\<forall>out m. fst (f address len out m) = UCS_ERR_INVALID_ADDR)"
  from ucm_mem_attr_get_loop_not_found[OF this, of False out m]
  show "\<exists>m'. ucm_mem_attr_get insts address len out m = (UCS_OK, PTR_mem_attr_host, m')"
    by (auto simp: ucm_mem_attr_get_def)
qed

theorem ucm_mem_attr_get_not_found_is_host_witness:
  "ucm_mem_attr_get ex_installers 4096 1024 NULL Map.empty =
     (UCS_OK, PTR_mem_attr_host, Map.empty)"
proof -
  have h: "\<forall>inst \<in> set ex_installers. \<forall>f. get_mem_attr inst = Some f \<longrightarrow>
        (\<forall>out m. fst (f 4096 1024 out m) = UCS_ERR_INVALID_ADDR)"
    by (simp add: ex_installers_def)
  from ucm_mem_attr_get_not_found_is_host[of ex_installers 4096 1024 NULL Map.empty] h
  obtain m' where
    "ucm_mem_attr_get ex_installers 4096 1024 NULL Map.empty = (UCS_OK, PTR_mem_attr_host, m')"
    by blast
  then show ?thesis
    by (simp add: ucm_mem_attr_get_def ex_installers_def)
qed

text \<open>
  C9. For two valid handles, \<^verbatim>\<open>ucm_mem_attr_cmp\<close> returns 1 when the memory types differ,
  whatever the installers' comparison functions are and whatever the two \<^verbatim>\<open>cmp\<close> members
  point to; when the memory types are equal, it returns what the first descriptor's
  \<^verbatim>\<open>cmp\<close> returns. The static host descriptor compared with any descriptor of host type
  (itself included) gives 0: all host memory points to that one struct.
\<close>

theorem ucm_mem_attr_cmp_by_type_then_callback:
  assumes "deref m mem_attr1 = Some a" and "deref m mem_attr2 = Some b"
  shows "(mem_type a \<noteq> mem_type b \<longrightarrow>
            (\<forall>ext'. ucm_mem_attr_cmp ext' m mem_attr1 mem_attr2 = Some 1)) \<and>
         (mem_type a = mem_type b \<longrightarrow>
            ucm_mem_attr_cmp ext m mem_attr1 mem_attr2 =
              call_cmp ext (cmp a) m mem_attr1 mem_attr2) \<and>
         (mem_attr1 = PTR_mem_attr_host \<and> mem_type b = UCS_MEMORY_TYPE_HOST \<longrightarrow>
            ucm_mem_attr_cmp ext m mem_attr1 mem_attr2 = Some 0)"
  using assms
  by (auto simp: ucm_mem_attr_cmp_def ucm_mem_attr_cmp_type_def mem_attr_host_def)

theorem ucm_mem_attr_cmp_by_type_then_callback_witness:
  "ucm_mem_attr_cmp ex_ext ex_mem (PTR 16) PTR_mem_attr_host = Some 1 \<and>
   ucm_mem_attr_cmp ex_ext ex_mem (PTR 16) (PTR 32) = Some 1 \<and>
   ucm_mem_attr_cmp ex_ext ex_mem (PTR 16) (PTR 16) = Some 0 \<and>
   ucm_mem_attr_cmp ex_ext ex_mem PTR_mem_attr_host PTR_mem_attr_host = Some 0"
proof -
  have d16: "deref ex_mem (PTR 16) =
    Some \<lparr> mem_type = UCS_MEMORY_TYPE_DEVICE 1, cmp = FN_ext_cmp 0, destroy = FN_ext_destroy 0 \<rparr>"
    by (simp add: ex_mem_def)
  have d32: "deref ex_mem (PTR 32) =
    Some \<lparr> mem_type = UCS_MEMORY_TYPE_DEVICE 1, cmp = FN_ext_cmp 0, destroy = FN_ext_destroy 0 \<rparr>"
    by (simp add: ex_mem_def)
  have dh: "deref ex_mem PTR_mem_attr_host = Some mem_attr_host"
    by simp
  from ucm_mem_attr_cmp_by_type_then_callback[OF d16 dh, of ex_ext]
  have 1: "ucm_mem_attr_cmp ex_ext ex_mem (PTR 16) PTR_mem_attr_host = Some 1"
    by (simp add: mem_attr_host_def)
  from ucm_mem_attr_cmp_by_type_then_callback[OF d16 d32, of ex_ext]
  have 2: "ucm_mem_attr_cmp ex_ext ex_mem (PTR 16) (PTR 32) = Some 1"
    by (simp add: ex_ext_def)
  from ucm_mem_attr_cmp_by_type_then_callback[OF d16 d16, of ex_ext]
  have 3: "ucm_mem_attr_cmp ex_ext ex_mem (PTR 16) (PTR 16) = Some 0"
    by (simp add: ex_ext_def)
  from ucm_mem_attr_cmp_by_type_then_callback[OF dh dh, of ex_ext]
  have 4: "ucm_mem_attr_cmp ex_ext ex_mem PTR_mem_attr_host PTR_mem_attr_host = Some 0"
    by (simp add: mem_attr_host_def ucm_mem_attr_cmp_type_def)
  from 1 2 3 4 show ?thesis by simp
qed

lemma ucm_mem_attr_destroy_host_noop:
  "ucm_mem_attr_destroy ext PTR_mem_attr_host m = Some m"
  by (simp add: ucm_mem_attr_destroy_def mem_attr_host_def ucm_mem_attr_destroy_host_def)

lemma ucm_mem_attr_destroy_times_host:
  "ucm_mem_attr_destroy_times n ext PTR_mem_attr_host m = Some m"
  by (induction n) (simp_all add: ucm_mem_attr_destroy_host_noop)

text \<open>
  C10. \<^verbatim>\<open>ucm_mem_attr_destroy\<close> on a null handle leaves the store as it is; on the host
  descriptor it leaves the store as it is, however many times it is called; afterwards
  the host handle still reads as the host descriptor with type \<^verbatim>\<open>UCS_MEMORY_TYPE_HOST\<close>.
  The call returns for every handle that is null or valid.
\<close>

theorem ucm_mem_attr_destroy_null_and_host:
  "ucm_mem_attr_destroy ext NULL m = Some m \<and>
   ucm_mem_attr_destroy ext PTR_mem_attr_host m = Some m \<and>
   ucm_mem_attr_destroy_times n ext PTR_mem_attr_host m = Some m \<and>
   deref m PTR_mem_attr_host = Some mem_attr_host \<and>
   ucm_mem_attr_get_type m PTR_mem_attr_host = Some UCS_MEMORY_TYPE_HOST \<and>
   (\<forall>h. h = NULL \<or> deref m h \<noteq> None \<longrightarrow> ucm_mem_attr_destroy ext h m \<noteq> None)"
proof (intro conjI allI impI)
  show "ucm_mem_attr_destroy ext NULL m = Some m"
    by (simp add: ucm_mem_attr_destroy_def)
  show "ucm_mem_attr_destroy ext PTR_mem_attr_host m = Some m"
    by (rule ucm_mem_attr_destroy_host_noop)
  show "ucm_mem_attr_destroy_times n ext PTR_mem_attr_host m = Some m"
    by (rule ucm_mem_attr_destroy_times_host)
  show "deref m PTR_mem_attr_host = Some mem_attr_host"
    by simp
  show "ucm_mem_attr_get_type m PTR_mem_attr_host = Some UCS_MEMORY_TYPE_HOST"
    by (simp add: ucm_mem_attr_get_type_def mem_attr_host_def)
  fix h assume "h = NULL \<or> deref m h \<noteq> None"
  then show "ucm_mem_attr_destroy ext h m \<noteq> None"
    by (auto simp: ucm_mem_attr_destroy_def)
qed

theorem ucm_mem_attr_destroy_null_and_host_witness:
  "ucm_mem_attr_destroy ex_ext NULL ex_mem = Some ex_mem \<and>
   ucm_mem_attr_destroy_times 3 ex_ext PTR_mem_attr_host ex_mem = Some ex_mem \<and>
   ucm_mem_attr_destroy ex_ext (PTR 16) ex_mem \<noteq> None"
proof -
  have "deref ex_mem (PTR 16) \<noteq> None" by (simp add: ex_mem_def)
  with ucm_mem_attr_destroy_null_and_host[of ex_ext ex_mem 3]
  show ?thesis by blast
qed

section \<open>Properties of the registration cache\<close>

subsection \<open>The primitive steps keep the records well-formed\<close>

lemma rid_invalidate [simp]: "rid (invalidate r) = rid r"
  by (simp add: invalidate_def)

lemma map_rid_invalidate_range [simp]:
  "map rid (regions (invalidate_range c lo hi)) = map rid (regions c)"
  by (simp add: invalidate_range_def comp_def)

lemma next_rid_invalidate_range [simp]: "next_rid (invalidate_range c lo hi) = next_rid c"
  by (simp add: invalidate_range_def)

lemma alignment_invalidate_range [simp]: "alignment (invalidate_range c lo hi) = alignment c"
  by (simp add: invalidate_range_def)

lemma next_rid_drain [simp]: "next_rid (drain c) = next_rid c"
  by (simp add: drain_def)

lemma alignment_drain [simp]: "alignment (drain c) = alignment c"
  by (simp add: drain_def)

lemma next_rid_hold [simp]: "next_rid (hold c k) = next_rid c"
  by (simp add: hold_def)

lemma alignment_hold [simp]: "alignment (hold c k) = alignment c"
  by (simp add: hold_def)

lemma map_rid_hold [simp]: "map rid (regions (hold c k)) = map rid (regions c)"
  by (simp add: hold_def comp_def)

lemma rcache_wf_invalidate_range:
  "rcache_wf c \<Longrightarrow> rcache_wf (invalidate_range c lo hi)"
  unfolding rcache_wf_def
  apply (simp add: list_all_iff)
  apply (auto simp: invalidate_range_def region_ok_def invalidate_def)
  done

lemma rcache_wf_drain: "rcache_wf c \<Longrightarrow> rcache_wf (drain c)"
  unfolding rcache_wf_def
  by (auto simp: drain_def list_all_iff region_ok_def distinct_map_filter)

lemma rcache_wf_hold: "rcache_wf c \<Longrightarrow> rcache_wf (hold c k)"
  unfolding rcache_wf_def
  apply (simp add: list_all_iff)
  apply (auto simp: hold_def region_ok_def)
  done

lemma rcache_wf_remove_region: "rcache_wf c \<Longrightarrow> rcache_wf (remove_region c k)"
  unfolding rcache_wf_def
  by (auto simp: remove_region_def list_all_iff region_ok_def distinct_map_filter)

lemma remove_inserted:
  assumes "rcache_wf c" and "rid r = next_rid c"
  shows "remove_region (insert_region c r) (rid r) = c"
proof -
  have "\<forall>x \<in> set (regions c). rid x \<noteq> rid r"
    using assms by (auto simp: rcache_wf_def list_all_iff region_ok_def)
  then have "filter (\<lambda>x. rid x \<noteq> rid r) (regions c) = regions c"
    by (simp add: filter_id_conv)
  then show ?thesis
    by (simp add: remove_region_def insert_region_def)
qed

lemma finish_inserted:
  assumes "rcache_wf c" and "rid r = next_rid c"
  shows "finish_register (insert_region c r) (rid r) =
           c\<lparr> regions := regions c @ [r\<lparr> flags := flags r - {REGISTERING}, refcount := 1 \<rparr>],
              next_rid := Suc (next_rid c) \<rparr>"
proof -
  have "\<forall>x \<in> set (regions c). rid x \<noteq> rid r"
    using assms by (auto simp: rcache_wf_def list_all_iff region_ok_def)
  then have "map (\<lambda>x. if rid x = rid r
                       then x\<lparr> flags := flags x - {REGISTERING}, refcount := 1 \<rparr>
                       else x) (regions c) = regions c"
    by (simp add: map_idI)
  then show ?thesis
    by (simp add: finish_register_def insert_region_def)
qed

lemma rcache_wf_append_new:
  assumes "rcache_wf c" and "rid r = next_rid c" and "start_addr r < end_addr r"
    and "flags r = {IN_PGTABLE}"
  shows "rcache_wf (c\<lparr> regions := regions c @ [r], next_rid := Suc (next_rid c) \<rparr>)"
  using assms unfolding rcache_wf_def
  by (auto simp: list_all_iff region_ok_def)

subsection \<open>The ways out of \<open>get\<close>\<close>

lemma align_down_le: "align_down a x \<le> x"
  by (simp add: align_down_def)

lemma align_up_ge: "0 < a \<Longrightarrow> x \<le> align_up a x"
proof -
  assume a: "0 < a"
  have "x + a - 1 < ((x + a - 1) div a) * a + a"
    using a by (metis add.commute div_mult_mod_eq mod_less_divisor add_strict_left_mono mult.commute)
  then show ?thesis using a by (simp add: align_up_def)
qed

lemma normalized_nonempty:
  "0 < a \<Longrightarrow> 0 < len \<Longrightarrow> align_down a addr < align_up a (addr + len)"
  using align_down_le[of a addr] align_up_ge[of a "addr + len"] by linarith

lemma merged_start_le: "merged_start s rs \<le> s"
  unfolding merged_start_def
proof (induction rs arbitrary: s)
  case Nil then show ?case by simp
next
  case (Cons r rs)
  have "fold (\<lambda>r a. min a (start_addr r)) rs (min s (start_addr r)) \<le> min s (start_addr r)"
    by (rule Cons.IH)
  then show ?case by simp
qed

lemma merged_end_ge: "e \<le> merged_end e rs"
  unfolding merged_end_def
proof (induction rs arbitrary: e)
  case Nil then show ?case by simp
next
  case (Cons r rs)
  have "max e (end_addr r) \<le> fold (\<lambda>r a. max a (end_addr r)) rs (max e (end_addr r))"
    by (rule Cons.IH)
  then show ?case by simp
qed

lemma merged_prot_sup: "p \<subseteq> merged_prot p rs"
  unfolding merged_prot_def
proof (induction rs arbitrary: p)
  case Nil then show ?case by simp
next
  case (Cons r rs)
  have "p \<union> prot r \<subseteq> fold (\<lambda>r a. a \<union> prot r) rs (p \<union> prot r)"
    by (rule Cons.IH)
  then show ?case by auto
qed

lemma merged_start_cases:
  "merged_start s rs = s \<or> (\<exists>r \<in> set rs. merged_start s rs = start_addr r)"
  unfolding merged_start_def
proof (induction rs arbitrary: s)
  case Nil then show ?case by simp
next
  case (Cons r rs)
  from Cons.IH[of "min s (start_addr r)"] show ?case
    by (auto simp: min_def split: if_splits)
qed

lemma merged_end_cases:
  "merged_end e rs = e \<or> (\<exists>r \<in> set rs. merged_end e rs = end_addr r)"
  unfolding merged_end_def
proof (induction rs arbitrary: e)
  case Nil then show ?case by simp
next
  case (Cons r rs)
  from Cons.IH[of "max e (end_addr r)"] show ?case
    by (auto simp: max_def split: if_splits)
qed

lemma register_region_eq:
  assumes "rcache_wf c"
  shows "register_region env c s e (new_region c ns ne np k) =
           (if mem_reg env (new_region c ns ne np k) = UCS_OK
            then (Inr (next_rid c), after_create c s e (created_region c ns ne np k))
            else (Inl UCS_ERR_IO_ERROR, drain (invalidate_range c s e)))"
proof -
  let ?ci = "invalidate_range c s e"
  let ?r = "new_region c ns ne np k"
  have wf: "rcache_wf ?ci" using assms by (rule rcache_wf_invalidate_range)
  have rid: "rid ?r = next_rid ?ci" by (simp add: new_region_def)
  have fl: "{IN_PGTABLE, REGISTERING} - {REGISTERING} = {IN_PGTABLE}" by auto
  have fin: "finish_register (insert_region ?ci ?r) (rid ?r) =
           ?ci\<lparr> regions := regions ?ci @ [created_region c ns ne np k],
              next_rid := Suc (next_rid c) \<rparr>"
    using finish_inserted[OF wf rid]
    by (simp add: new_region_def created_region_def fl)
  have rem: "remove_region (insert_region ?ci ?r) (rid ?r) = ?ci"
    using remove_inserted[OF wf rid] .
  show ?thesis
    unfolding register_region_def Let_def after_create_def
    using fin rem by (simp add: new_region_def)
qed

lemma slow_merge_cases:
  assumes wf: "rcache_wf c" and g: "slow_merge env c s e p k overl = (res, c')"
  obtains
    (created) ns ne np where "ns \<le> s" "e \<le> ne" "p \<subseteq> np" "os_supports env ns ne np"
      "ns = s \<or> (\<exists>r \<in> set overl. ns = start_addr r)"
      "ne = e \<or> (\<exists>r \<in> set overl. ne = end_addr r)"
      "mem_reg env (new_region c ns ne np k) = UCS_OK"
      "res = Inr (next_rid c)" "c' = after_create c s e (created_region c ns ne np k)"
  | (failed) "res = Inl UCS_ERR_IO_ERROR" "c' = drain (invalidate_range c s e)"
proof -
  let ?same = "filter (\<lambda>r. mem_kind r = k) overl"
  let ?ms = "merged_start s ?same" and ?me = "merged_end e ?same" and ?mp = "merged_prot p ?same"
  show thesis
  proof (cases "os_supports env ?ms ?me ?mp")
    case True
    with g have r: "register_region env c s e (new_region c ?ms ?me ?mp k) = (res, c')"
      by (simp add: slow_merge_def Let_def)
    show thesis
    proof (cases "mem_reg env (new_region c ?ms ?me ?mp k) = UCS_OK")
      case ok: True
      with r have "res = Inr (next_rid c)"
        "c' = after_create c s e (created_region c ?ms ?me ?mp k)"
        by (simp_all add: register_region_eq[OF wf])
      moreover have "?ms = s \<or> (\<exists>r \<in> set overl. ?ms = start_addr r)"
        using merged_start_cases[of s ?same] by auto
      moreover have "?me = e \<or> (\<exists>r \<in> set overl. ?me = end_addr r)"
        using merged_end_cases[of e ?same] by auto
      ultimately show thesis
        using True ok created[of ?ms ?me ?mp] merged_start_le merged_end_ge merged_prot_sup
        by blast
    next
      case False
      with r have "res = Inl UCS_ERR_IO_ERROR" "c' = drain (invalidate_range c s e)"
        by (simp_all add: register_region_eq[OF wf])
      then show thesis by (rule failed)
    qed
  next
    case no: False
    show thesis
    proof (cases "os_supports env s e p")
      case True
      with no g have r: "register_region env c s e (new_region c s e p k) = (res, c')"
        by (simp add: slow_merge_def Let_def)
      show thesis
      proof (cases "mem_reg env (new_region c s e p k) = UCS_OK")
        case ok: True
        with r have "res = Inr (next_rid c)"
          "c' = after_create c s e (created_region c s e p k)"
          by (simp_all add: register_region_eq[OF wf])
        with True ok show thesis
          using created[of s e p] by blast
      next
        case False
        with r have "res = Inl UCS_ERR_IO_ERROR" "c' = drain (invalidate_range c s e)"
          by (simp_all add: register_region_eq[OF wf])
        then show thesis by (rule failed)
      qed
    next
      case False
      with no g have "res = Inl UCS_ERR_IO_ERROR" "c' = drain (invalidate_range c s e)"
        by (simp_all add: slow_merge_def Let_def)
      then show thesis by (rule failed)
    qed
  qed
qed

lemma find_Some_in: "find P xs = Some x \<Longrightarrow> x \<in> set xs \<and> P x"
  by (induction xs) (auto split: if_splits)

lemma slow_path_cases:
  assumes wf: "rcache_wf c" and g: "slow_path env c s e p k = (res, c')"
  obtains
    (hit) r where "r \<in> set (pgtable c)" "is_hit r s e p k" "res = Inr (rid r)"
      "c' = hold c (rid r)"
  | (created) ns ne np where "ns \<le> s" "e \<le> ne" "p \<subseteq> np"
      "range_iter c s e = [] \<or> os_supports env ns ne np"
      "ns = s \<or> (\<exists>r \<in> set (range_iter c s e). ns = start_addr r)"
      "ne = e \<or> (\<exists>r \<in> set (range_iter c s e). ne = end_addr r)"
      "mem_reg env (new_region c ns ne np k) = UCS_OK"
      "res = Inr (next_rid c)" "c' = after_create c s e (created_region c ns ne np k)"
  | (failed) "res = Inl UCS_ERR_IO_ERROR" "c' = drain (invalidate_range c s e)"
proof (cases "range_iter c s e")
  case Nil
  with g have r: "register_region env c s e (new_region c s e p k) = (res, c')"
    by (simp add: slow_path_def)
  show thesis
  proof (cases "mem_reg env (new_region c s e p k) = UCS_OK")
    case True
    with r have "res = Inr (next_rid c)" "c' = after_create c s e (created_region c s e p k)"
      by (simp_all add: register_region_eq[OF wf])
    with True Nil show thesis using created[of s e p] by blast
  next
    case False
    with r have "res = Inl UCS_ERR_IO_ERROR" "c' = drain (invalidate_range c s e)"
      by (simp_all add: register_region_eq[OF wf])
    then show thesis by (rule failed)
  qed
next
  case (Cons r rest)
  show thesis
  proof (cases "rest = [] \<and> is_hit r s e p k")
    case True
    with Cons g have "res = Inr (rid r)" "c' = hold c (rid r)"
      by (simp_all add: slow_path_def)
    moreover have "r \<in> set (pgtable c)"
      using Cons by (metis filter_is_subset list.set_intros(1) range_iter_def subsetD)
    ultimately show thesis using True hit by blast
  next
    case False
    with Cons g have "slow_merge env c s e p k (r # rest) = (res, c')"
      by (cases rest) (simp_all add: slow_path_def)
    from wf this show thesis
    proof (cases rule: slow_merge_cases)
      case (created ns ne np)
      then show ?thesis using that(2)[of ns ne np] Cons by simp
    next
      case failed
      then show ?thesis using that(3) by blast
    qed
  qed
qed

lemma get_cases:
  assumes wf: "rcache_wf c" and g: "get env c addr len p = (res, c')"
  obtains
    (bad_arg) "len = 0" "res = Inl UCS_ERR_INVALID_PARAM" "c' = c"
  | (unclassified) err where "0 < len" "classify env addr len = Inl err" "res = Inl err" "c' = c"
  | (hit) k r where "0 < len" "classify env addr len = Inr k" "r \<in> set (pgtable c)"
      "is_hit r (align_down (alignment c) addr) (align_up (alignment c) (addr + len)) p k"
      "res = Inr (rid r)" "c' = hold c (rid r)"
  | (created) k ns ne np where "0 < len" "classify env addr len = Inr k"
      "ns \<le> align_down (alignment c) addr" "align_up (alignment c) (addr + len) \<le> ne"
      "p \<subseteq> np"
      "range_iter c (align_down (alignment c) addr) (align_up (alignment c) (addr + len)) = []
         \<or> os_supports env ns ne np"
      "ns = align_down (alignment c) addr \<or>
         (\<exists>r \<in> set (range_iter c (align_down (alignment c) addr)
                          (align_up (alignment c) (addr + len))). ns = start_addr r)"
      "ne = align_up (alignment c) (addr + len) \<or>
         (\<exists>r \<in> set (range_iter c (align_down (alignment c) addr)
                          (align_up (alignment c) (addr + len))). ne = end_addr r)"
      "mem_reg env (new_region c ns ne np k) = UCS_OK"
      "res = Inr (next_rid c)"
      "c' = after_create c (align_down (alignment c) addr) (align_up (alignment c) (addr + len))
              (created_region c ns ne np k)"
  | (failed) k where "0 < len" "classify env addr len = Inr k" "res = Inl UCS_ERR_IO_ERROR"
      "c' = drain (invalidate_range c (align_down (alignment c) addr)
                     (align_up (alignment c) (addr + len)))"
proof (cases "len = 0")
  case True
  with g show thesis using bad_arg by (simp add: get_def)
next
  case len: False
  let ?s = "align_down (alignment c) addr" and ?e = "align_up (alignment c) (addr + len)"
  show thesis
  proof (cases "classify env addr len")
    case (Inl err)
    with g len show thesis using unclassified[of err] by (simp add: get_def)
  next
    case (Inr k)
    show thesis
    proof (cases "fast_path c ?s ?e p k")
      case (Some r)
      with g len Inr have res: "res = Inr (rid r)" "c' = hold c (rid r)"
        by (simp_all add: get_def Let_def)
      from Some have "lookup_containing c ?s = Some r" "is_hit r ?s ?e p k"
        by (auto simp: fast_path_def split: option.splits if_splits)
      then have "r \<in> set (pgtable c)" "is_hit r ?s ?e p k"
        by (auto simp: lookup_containing_def dest: find_Some_in)
      with res len Inr show thesis using hit[of k r] by blast
    next
      case None
      with g len Inr have sp: "slow_path env c ?s ?e p k = (res, c')"
        by (simp add: get_def Let_def)
      from wf sp show thesis
      proof (cases rule: slow_path_cases)
        case (hit r)
        with len Inr show ?thesis using that(3)[of k r] by blast
      next
        case (created ns ne np)
        with len Inr show ?thesis using that(4)[of k ns ne np] by blast
      next
        case failed
        with len Inr show ?thesis using that(5)[of k] by blast
      qed
    qed
  qed
qed

subsection \<open>Every operation keeps the records well-formed\<close>

lemma rcache_wf_after_create:
  assumes "rcache_wf c" and "ns < ne"
  shows "rcache_wf (after_create c s e (created_region c ns ne np k))"
proof -
  let ?ci = "invalidate_range c s e"
  have "rcache_wf (?ci\<lparr> regions := regions ?ci @ [created_region c ns ne np k],
                        next_rid := Suc (next_rid ?ci) \<rparr>)"
    using assms
    by (intro rcache_wf_append_new rcache_wf_invalidate_range)
       (simp_all add: created_region_def)
  then show ?thesis
    unfolding after_create_def by (intro rcache_wf_drain) simp
qed

lemma rcache_wf_get:
  assumes wf: "rcache_wf c" and g: "get env c addr len p = (res, c')"
  shows "rcache_wf c'"
  using wf g
proof (cases rule: get_cases)
  case (created k ns ne np)
  have "0 < alignment c" using wf by (simp add: rcache_wf_def)
  from normalized_nonempty[OF this \<open>0 < len\<close>, of addr] created(3,4)
  have "ns < ne" by linarith
  with wf created show ?thesis by (simp add: rcache_wf_after_create)
qed (simp_all add: wf rcache_wf_hold rcache_wf_drain rcache_wf_invalidate_range)

lemma rcache_wf_put: "rcache_wf c \<Longrightarrow> rcache_wf (put c k)"
proof -
  assume wf: "rcache_wf c"
  let ?f = "\<lambda>x. if rid x = k then x\<lparr> refcount := refcount x - 1 \<rparr> else x"
  let ?c = "c\<lparr> regions := map ?f (regions c) \<rparr>"
  have rid: "map rid (map ?f (regions c)) = map rid (regions c)"
    by (induction "regions c") (auto simp: comp_def)
  have ok: "\<And>x. region_ok c x \<Longrightarrow> region_ok ?c (?f x)"
    by (simp add: region_ok_def)
  have all: "\<forall>y \<in> set (map ?f (regions c)). region_ok ?c y"
  proof
    fix y assume "y \<in> set (map ?f (regions c))"
    then obtain x where x: "x \<in> set (regions c)" "y = ?f x" by auto
    with wf have "region_ok c x" by (simp add: rcache_wf_def list_all_iff)
    from ok[OF this] x show "region_ok ?c y" by simp
  qed
  have "distinct (map rid (regions ?c))" "0 < alignment ?c"
    using wf rid by (simp_all add: rcache_wf_def del: map_map)
  moreover have "list_all (region_ok ?c) (regions ?c)"
    using all by (simp add: list_all_iff del: set_map)
  ultimately have dec: "rcache_wf ?c"
    unfolding rcache_wf_def by blast
  show ?thesis
    using wf dec by (auto simp: put_def rcache_wf_remove_region split: option.splits)
qed

lemma rcache_wf_empty: "0 < a \<Longrightarrow> rcache_wf (empty_cache a)"
  by (simp add: rcache_wf_def empty_cache_def)

lemma in_pgtable_hold:
  "r \<in> set (pgtable c) \<Longrightarrow>
     r\<lparr> refcount := Suc (refcount r) \<rparr> \<in> set (regions (hold c (rid r)))"
  by (force simp: pgtable_def hold_def)

lemma created_in_after_create:
  "created_region c ns ne np k \<in> set (regions (after_create c s e (created_region c ns ne np k)))"
  by (simp add: after_create_def drain_def created_region_def)

lemma get_returns:
  assumes wf: "rcache_wf c" and g: "get env c addr len p = (Inr k, c')"
  shows "\<exists>r \<in> set (regions c'). rid r = k \<and> in_pgtable r \<and> INVALID \<notin> flags r \<and>
           start_addr r \<le> align_down (alignment c) addr \<and>
           align_up (alignment c) (addr + len) \<le> end_addr r \<and>
           p \<subseteq> prot r \<and> classify env addr len = Inr (mem_kind r) \<and> 0 < refcount r"
  using wf g
proof (cases rule: get_cases)
  case (hit kd r)
  let ?r = "r\<lparr> refcount := Suc (refcount r) \<rparr>"
  have "r \<in> set (regions c)" "in_pgtable r"
    using hit(3) by (auto simp: pgtable_def)
  with wf have "INVALID \<notin> flags r"
    by (auto simp: rcache_wf_def list_all_iff region_ok_def in_pgtable_def)
  with hit \<open>in_pgtable r\<close> in_pgtable_hold[OF hit(3)] show ?thesis
    by (intro bexI[of _ ?r]) (auto simp: is_hit_def in_pgtable_def)
next
  case (created kd ns ne np)
  with created_in_after_create[of c ns ne np kd] show ?thesis
    by (intro bexI[of _ "created_region c ns ne np kd"])
       (auto simp: created_region_def in_pgtable_def)
qed simp_all

subsection \<open>Every operation keeps the page table disjoint\<close>

lemma pgtable_disjoint_iff:
  "pgtable_disjoint c =
     (\<forall>r1 \<in> set (pgtable c). \<forall>r2 \<in> set (pgtable c). rid r1 = rid r2 \<or> disjoint_regions r1 r2)"
  by (simp add: pgtable_disjoint_def list_all_iff)

lemma rid_inj:
  "rcache_wf c \<Longrightarrow> x \<in> set (regions c) \<Longrightarrow> y \<in> set (regions c) \<Longrightarrow> rid x = rid y \<Longrightarrow> x = y"
  by (auto simp: rcache_wf_def distinct_map dest: inj_onD)

lemma filter_pgtable_invalidated:
  "filter in_pgtable (map (\<lambda>r. if in_pgtable r \<and> intersects r lo hi then invalidate r else r) rs)
     = filter (\<lambda>r. \<not> intersects r lo hi) (filter in_pgtable rs)"
  by (induction rs) (auto simp: in_pgtable_def invalidate_def)

lemma pgtable_invalidate_range:
  "pgtable (invalidate_range c lo hi) = filter (\<lambda>r. \<not> intersects r lo hi) (pgtable c)"
  by (simp add: pgtable_def invalidate_range_def filter_pgtable_invalidated)

lemma pgtable_drain:
  "rcache_wf c \<Longrightarrow> pgtable (drain c) = pgtable c"
proof -
  assume wf: "rcache_wf c"
  have "\<forall>r \<in> set (regions c). in_pgtable r \<longrightarrow> INVALID \<notin> flags r"
    using wf by (auto simp: rcache_wf_def list_all_iff region_ok_def in_pgtable_def)
  then show ?thesis
    unfolding pgtable_def drain_def by (auto intro: filter_cong)
qed

lemma filter_pgtable_map:
  "(\<And>x. in_pgtable (f x) = in_pgtable x) \<Longrightarrow>
     filter in_pgtable (map f rs) = map f (filter in_pgtable rs)"
  by (induction rs) auto

lemma pgtable_hold:
  "pgtable (hold c k) =
     map (\<lambda>r. if rid r = k then r\<lparr> refcount := Suc (refcount r) \<rparr> else r) (pgtable c)"
  unfolding pgtable_def hold_def
  by (simp add: filter_pgtable_map in_pgtable_def)

lemma pgtable_disjoint_map:
  assumes d: "pgtable_disjoint c" and pg: "pgtable c' = map f (pgtable c)"
    and f: "\<And>x. rid (f x) = rid x \<and> start_addr (f x) = start_addr x \<and>
                 end_addr (f x) = end_addr x"
  shows "pgtable_disjoint c'"
  unfolding pgtable_disjoint_iff
proof (intro ballI)
  fix r1 r2 assume "r1 \<in> set (pgtable c')" "r2 \<in> set (pgtable c')"
  then obtain x1 x2 where x: "x1 \<in> set (pgtable c)" "r1 = f x1" "x2 \<in> set (pgtable c)" "r2 = f x2"
    unfolding pg by auto
  with d have "rid x1 = rid x2 \<or> disjoint_regions x1 x2"
    unfolding pgtable_disjoint_iff by blast
  with x f show "rid r1 = rid r2 \<or> disjoint_regions r1 r2"
    by (simp add: disjoint_regions_def)
qed

lemma pgtable_disjoint_hold:
  "pgtable_disjoint c \<Longrightarrow> pgtable_disjoint (hold c k)"
  by (erule pgtable_disjoint_map[OF _ pgtable_hold]) simp

lemma pgtable_disjoint_filter:
  assumes "pgtable_disjoint c" and "set (pgtable c') \<subseteq> set (pgtable c)"
  shows "pgtable_disjoint c'"
  using assms unfolding pgtable_disjoint_iff by blast

lemma pgtable_disjoint_invalidate_range:
  "pgtable_disjoint c \<Longrightarrow> pgtable_disjoint (invalidate_range c lo hi)"
  by (erule pgtable_disjoint_filter) (auto simp: pgtable_invalidate_range)

lemma pgtable_disjoint_drain:
  "pgtable_disjoint c \<Longrightarrow> pgtable_disjoint (drain c)"
  by (erule pgtable_disjoint_filter) (auto simp: pgtable_def drain_def)

lemma pgtable_disjoint_put:
  "pgtable_disjoint c \<Longrightarrow> pgtable_disjoint (put c k)"
proof -
  assume d: "pgtable_disjoint c"
  let ?f = "\<lambda>x. if rid x = k then x\<lparr> refcount := refcount x - 1 \<rparr> else x"
  have pg: "pgtable (c\<lparr> regions := map ?f (regions c) \<rparr>) = map ?f (pgtable c)"
    unfolding pgtable_def by (simp add: filter_pgtable_map in_pgtable_def)
  have "pgtable_disjoint (c\<lparr> regions := map ?f (regions c) \<rparr>)"
    using d pg by (rule pgtable_disjoint_map) simp
  moreover have "pgtable_disjoint (remove_region c k)"
    using d by (rule pgtable_disjoint_filter) (auto simp: pgtable_def remove_region_def)
  ultimately show ?thesis
    using d by (auto simp: put_def split: option.splits)
qed

lemma pgtable_after_create:
  assumes "rcache_wf c"
  shows "pgtable (after_create c s e (created_region c ns ne np k)) =
           filter (\<lambda>r. \<not> intersects r s e) (pgtable c) @ [created_region c ns ne np k]"
proof -
  let ?ci = "invalidate_range c s e"
  let ?r = "created_region c ns ne np k"
  have wf: "rcache_wf ?ci" using assms by (rule rcache_wf_invalidate_range)
  have "regions (drain (?ci\<lparr> regions := regions ?ci @ [?r], next_rid := Suc (next_rid c) \<rparr>))
          = regions (drain ?ci) @ [?r]"
    by (simp add: drain_def created_region_def)
  then have "pgtable (after_create c s e ?r) = pgtable (drain ?ci) @ [?r]"
    by (simp add: after_create_def pgtable_def in_pgtable_def created_region_def)
  then show ?thesis
    by (simp add: pgtable_drain[OF wf] pgtable_invalidate_range)
qed

lemma new_interval_disjoint:
  assumes wf: "rcache_wf c" and dj: "pgtable_disjoint c"
    and t: "t \<in> set (pgtable c)" and nt: "\<not> intersects t s e" and se: "s < e"
    and ns: "ns = s \<or> (\<exists>r \<in> set (range_iter c s e). ns = start_addr r)"
    and ne: "ne = e \<or> (\<exists>r \<in> set (range_iter c s e). ne = end_addr r)"
  shows "end_addr t \<le> ns \<or> ne \<le> start_addr t"
proof -
  have tt: "start_addr t < end_addr t"
    using wf t by (auto simp: pgtable_def rcache_wf_def list_all_iff region_ok_def)
  have other: "\<And>r. r \<in> set (range_iter c s e) \<Longrightarrow> disjoint_regions r t"
  proof -
    fix r assume r: "r \<in> set (range_iter c s e)"
    then have rp: "r \<in> set (pgtable c)" and ri: "intersects r s e"
      by (auto simp: range_iter_def)
    with nt have "r \<noteq> t" by auto
    moreover have "r \<in> set (regions c)" "t \<in> set (regions c)"
      using rp t by (auto simp: pgtable_def)
    ultimately have "rid r \<noteq> rid t" using rid_inj[OF wf] by blast
    with dj rp t show "disjoint_regions r t" unfolding pgtable_disjoint_iff by blast
  qed
  have ri: "\<And>r. r \<in> set (range_iter c s e) \<Longrightarrow> start_addr r < e \<and> s < end_addr r"
    by (auto simp: range_iter_def intersects_def)
  from nt have "end_addr t \<le> s \<or> e \<le> start_addr t"
    by (auto simp: intersects_def)
  then show ?thesis
  proof
    assume a: "end_addr t \<le> s"
    from ns show ?thesis
    proof
      assume "ns = s" with a show ?thesis by simp
    next
      assume "\<exists>r \<in> set (range_iter c s e). ns = start_addr r"
      then obtain r where r: "r \<in> set (range_iter c s e)" "ns = start_addr r" by blast
      from other[OF r(1)] ri[OF r(1)] a tt r(2) show ?thesis
        by (auto simp: disjoint_regions_def)
    qed
  next
    assume a: "e \<le> start_addr t"
    from ne show ?thesis
    proof
      assume "ne = e" with a show ?thesis by simp
    next
      assume "\<exists>r \<in> set (range_iter c s e). ne = end_addr r"
      then obtain r where r: "r \<in> set (range_iter c s e)" "ne = end_addr r" by blast
      from other[OF r(1)] ri[OF r(1)] a tt r(2) show ?thesis
        by (auto simp: disjoint_regions_def)
    qed
  qed
qed

lemma pgtable_disjoint_get:
  assumes wf: "rcache_wf c" and dj: "pgtable_disjoint c"
    and g: "get env c addr len p = (res, c')"
  shows "pgtable_disjoint c'"
  using wf g
proof (cases rule: get_cases)
  case (created k ns ne np)
  let ?s = "align_down (alignment c) addr" and ?e = "align_up (alignment c) (addr + len)"
  have "0 < alignment c" using wf by (simp add: rcache_wf_def)
  from normalized_nonempty[OF this \<open>0 < len\<close>, of addr] have se: "?s < ?e" .
  have new: "\<And>t. t \<in> set (pgtable c) \<Longrightarrow> \<not> intersects t ?s ?e \<Longrightarrow>
              end_addr t \<le> ns \<or> ne \<le> start_addr t"
    using new_interval_disjoint[OF wf dj _ _ se created(7,8)] by blast
  show ?thesis
    unfolding created(11) pgtable_disjoint_iff pgtable_after_create[OF wf]
    using dj new
    by (auto simp: pgtable_disjoint_iff disjoint_regions_def created_region_def)
qed (simp_all add: dj pgtable_disjoint_hold pgtable_disjoint_drain pgtable_disjoint_invalidate_range)

subsection \<open>A region that serves a request is found again\<close>

lemma find_unique:
  assumes "x \<in> set xs" and "P x" and u: "\<And>y. y \<in> set xs \<Longrightarrow> P y \<Longrightarrow> y = x"
  shows "find P xs = Some x"
proof (cases "find P xs")
  case None
  with assms(1,2) show ?thesis by (simp add: find_None_iff)
next
  case (Some y)
  then have "y \<in> set xs \<and> P y" by (rule find_Some_in)
  with u have "y = x" by blast
  with Some show ?thesis by simp
qed

lemma find_rid:
  "rcache_wf c \<Longrightarrow> r \<in> set (regions c) \<Longrightarrow> find (\<lambda>x. rid x = rid r) (regions c) = Some r"
proof (rule find_unique)
  assume wf: "rcache_wf c" and r: "r \<in> set (regions c)"
  show "r \<in> set (regions c)" by (rule r)
  show "rid r = rid r" by simp
  fix y assume "y \<in> set (regions c)" "rid y = rid r"
  with rid_inj[OF wf _ r] show "y = r" by blast
qed

lemma find_rid_None:
  "(\<forall>x \<in> set xs. rid x \<noteq> k) \<Longrightarrow> find (\<lambda>x. rid x = k) xs = None"
  by (induction xs) auto

lemma map_upd_id:
  "(\<And>x. x \<in> set xs \<Longrightarrow> rid x = k \<Longrightarrow> f x = x) \<Longrightarrow>
     map (\<lambda>x. if rid x = k then f x else x) xs = xs"
  by (induction xs) auto

lemma alignment_get:
  assumes "rcache_wf c" and "get env c addr len p = (res, c')"
  shows "alignment c' = alignment c"
  using assms by (cases rule: get_cases) (simp_all add: after_create_def drain_def)

lemma put_valid:
  assumes wf: "rcache_wf c" and r: "r \<in> set (regions c)" and v: "INVALID \<notin> flags r"
    and h: "0 < refcount r"
  shows "put c (rid r) =
           c\<lparr> regions := map (\<lambda>x. if rid x = rid r then x\<lparr> refcount := refcount x - 1 \<rparr> else x)
                              (regions c) \<rparr>"
  using find_rid[OF wf r] v h by (simp add: put_def)

lemma hold_put_valid:
  assumes wf: "rcache_wf c" and r: "r \<in> set (regions c)" and v: "INVALID \<notin> flags r"
    and h: "0 < refcount r"
  shows "hold (put c (rid r)) (rid r) = c"
proof -
  have "map (\<lambda>x. if rid x = rid r then x\<lparr> refcount := Suc (refcount x) \<rparr> else x)
          (map (\<lambda>x. if rid x = rid r then x\<lparr> refcount := refcount x - 1 \<rparr> else x) (regions c))
        = map (\<lambda>x. if rid x = rid r then x\<lparr> refcount := Suc (refcount x - 1) \<rparr> else x) (regions c)"
    by (simp add: comp_def if_distrib cong: if_cong)
  also have "\<dots> = regions c"
  proof (rule map_upd_id)
    fix x assume "x \<in> set (regions c)" "rid x = rid r"
    with rid_inj[OF wf _ r] have "x = r" by blast
    with h show "x\<lparr> refcount := Suc (refcount x - 1) \<rparr> = x" by simp
  qed
  finally show ?thesis
    by (simp add: put_valid[OF assms] hold_def)
qed

lemma put_hold:
  assumes wf: "rcache_wf c" and r: "r \<in> set (pgtable c)"
  shows "put (hold c (rid r)) (rid r) = c"
proof -
  let ?r = "r\<lparr> refcount := Suc (refcount r) \<rparr>"
  have rc: "r \<in> set (regions c)" and pg: "in_pgtable r"
    using r by (auto simp: pgtable_def)
  have v: "INVALID \<notin> flags r"
    using wf rc pg by (auto simp: rcache_wf_def list_all_iff region_ok_def in_pgtable_def)
  have wfh: "rcache_wf (hold c (rid r))" using wf by (rule rcache_wf_hold)
  have rh: "?r \<in> set (regions (hold c (rid r)))" using r by (rule in_pgtable_hold)
  have "put (hold c (rid r)) (rid ?r) =
          (hold c (rid r))\<lparr> regions :=
             map (\<lambda>x. if rid x = rid ?r then x\<lparr> refcount := refcount x - 1 \<rparr> else x)
               (regions (hold c (rid r))) \<rparr>"
    using v by (intro put_valid[OF wfh rh]) simp_all
  moreover have "map (\<lambda>x. if rid x = rid r then x\<lparr> refcount := refcount x - 1 \<rparr> else x)
          (map (\<lambda>x. if rid x = rid r then x\<lparr> refcount := Suc (refcount x) \<rparr> else x) (regions c))
        = regions c"
  proof -
    have "map (\<lambda>x. if rid x = rid r then x\<lparr> refcount := refcount x - 1 \<rparr> else x)
          (map (\<lambda>x. if rid x = rid r then x\<lparr> refcount := Suc (refcount x) \<rparr> else x) (regions c))
        = map (\<lambda>x. if rid x = rid r then x\<lparr> refcount := refcount x \<rparr> else x) (regions c)"
      by (simp add: comp_def if_distrib cong: if_cong)
    also have "\<dots> = regions c" by (rule map_upd_id) simp
    finally show ?thesis .
  qed
  ultimately show ?thesis by (simp add: hold_def)
qed

lemma fast_path_finds:
  assumes wf: "rcache_wf c" and dj: "pgtable_disjoint c"
    and r: "r \<in> set (pgtable c)" and hit: "is_hit r s e p k" and se: "s < e"
  shows "fast_path c s e p k = Some r"
proof -
  have "find (\<lambda>x. start_addr x \<le> s \<and> s < end_addr x) (pgtable c) = Some r"
  proof (rule find_unique[OF r])
    show "start_addr r \<le> s \<and> s < end_addr r"
      using hit se by (auto simp: is_hit_def)
  next
    fix y assume y: "y \<in> set (pgtable c)" "start_addr y \<le> s \<and> s < end_addr y"
    with hit se have "\<not> disjoint_regions y r"
      by (auto simp: disjoint_regions_def is_hit_def)
    with dj y r have "rid y = rid r" unfolding pgtable_disjoint_iff by blast
    with y r show "y = r" using rid_inj[OF wf] by (auto simp: pgtable_def)
  qed
  with hit show ?thesis by (simp add: fast_path_def lookup_containing_def)
qed

lemma get_hit:
  assumes wf: "rcache_wf c" and dj: "pgtable_disjoint c" and len: "0 < len"
    and cl: "classify env addr len = Inr k"
    and r: "r \<in> set (pgtable c)"
    and hit: "is_hit r (align_down (alignment c) addr) (align_up (alignment c) (addr + len)) p k"
  shows "get env c addr len p = (Inr (rid r), hold c (rid r))"
proof -
  have "0 < alignment c" using wf by (simp add: rcache_wf_def)
  from normalized_nonempty[OF this len, of addr] fast_path_finds[OF wf dj r hit]
  show ?thesis using len cl by (simp add: get_def Let_def)
qed

lemma get_again:
  assumes wf: "rcache_wf c" and dj: "pgtable_disjoint c"
    and g: "get env c addr len p = (Inr k, c1)"
  shows "get env (put c1 k) addr len p = (Inr k, c1)"
proof -
  have wf1: "rcache_wf c1" using wf g by (rule rcache_wf_get)
  have dj1: "pgtable_disjoint c1" using wf dj g by (rule pgtable_disjoint_get)
  have al: "alignment c1 = alignment c" using wf g by (rule alignment_get)
  have len: "0 < len" using g by (cases "len = 0") (simp_all add: get_def)
  let ?s = "align_down (alignment c) addr" and ?e = "align_up (alignment c) (addr + len)"
  from get_returns[OF wf g] obtain r where r: "r \<in> set (regions c1)" "rid r = k"
    "in_pgtable r" "INVALID \<notin> flags r" "start_addr r \<le> ?s" "?e \<le> end_addr r" "p \<subseteq> prot r"
    "classify env addr len = Inr (mem_kind r)" "0 < refcount r" by blast
  let ?dec = "\<lambda>x. if rid x = k then x\<lparr> refcount := refcount x - 1 \<rparr> else x"
  let ?c2 = "put c1 k"
  have c2: "?c2 = c1\<lparr> regions := map ?dec (regions c1) \<rparr>"
    using put_valid[OF wf1 r(1) r(4) r(9)] r(2) by simp
  have wf2: "rcache_wf ?c2" using wf1 by (rule rcache_wf_put)
  have dj2: "pgtable_disjoint ?c2" using dj1 by (rule pgtable_disjoint_put)
  have pg2: "pgtable ?c2 = map ?dec (pgtable c1)"
    unfolding c2 pgtable_def by (simp add: filter_pgtable_map in_pgtable_def)
  let ?r2 = "r\<lparr> refcount := refcount r - 1 \<rparr>"
  have "r \<in> set (pgtable c1)" using r by (simp add: pgtable_def)
  then have r2: "?r2 \<in> set (pgtable ?c2)"
    unfolding pg2 using r(2) by force
  have hit2: "is_hit ?r2 (align_down (alignment ?c2) addr)
                (align_up (alignment ?c2) (addr + len)) p (mem_kind r)"
    using r al by (simp add: is_hit_def c2)
  from get_hit[OF wf2 dj2 len r(8) r2 hit2]
  have "get env ?c2 addr len p = (Inr k, hold ?c2 k)" using r(2) by simp
  moreover have "hold ?c2 k = c1"
    using hold_put_valid[OF wf1 r(1) r(4) r(9)] r(2) by simp
  ultimately show ?thesis by simp
qed

lemma get_repeat:
  assumes wf: "rcache_wf c" and dj: "pgtable_disjoint c"
    and g: "get env c addr len p = (Inr k, c1)"
  shows "get env c1 addr len p = (Inr k, hold c1 k)"
proof -
  have wf1: "rcache_wf c1" using wf g by (rule rcache_wf_get)
  have dj1: "pgtable_disjoint c1" using wf dj g by (rule pgtable_disjoint_get)
  have al: "alignment c1 = alignment c" using wf g by (rule alignment_get)
  have len: "0 < len" using g by (cases "len = 0") (simp_all add: get_def)
  let ?s = "align_down (alignment c) addr" and ?e = "align_up (alignment c) (addr + len)"
  from get_returns[OF wf g] obtain r where r: "r \<in> set (regions c1)" "rid r = k"
    "in_pgtable r" "start_addr r \<le> ?s" "?e \<le> end_addr r" "p \<subseteq> prot r"
    "classify env addr len = Inr (mem_kind r)" by blast
  have pg: "r \<in> set (pgtable c1)" using r by (simp add: pgtable_def)
  have hit: "is_hit r (align_down (alignment c1) addr)
               (align_up (alignment c1) (addr + len)) p (mem_kind r)"
    using r al by (simp add: is_hit_def)
  from get_hit[OF wf1 dj1 len r(7) pg hit] r(2) show ?thesis by simp
qed

lemma get_put_pairs_fixed:
  assumes g: "get env c2 addr len p = (Inr k, c1)" and p: "put c1 k = c2"
  shows "get_put_pairs n env c2 addr len p = (replicate n (Inr k), c2)"
  by (induction n) (simp_all add: g p)

lemma refcount_of_in:
  "rcache_wf c \<Longrightarrow> r \<in> set (regions c) \<Longrightarrow> refcount_of c (rid r) = Some (refcount r)"
  by (simp add: refcount_of_def find_rid)

lemma refcount_of_fresh:
  "rcache_wf c \<Longrightarrow> refcount_of c (next_rid c) = None"
proof -
  assume "rcache_wf c"
  then have "\<forall>x \<in> set (regions c). rid x \<noteq> next_rid c"
    by (auto simp: rcache_wf_def list_all_iff region_ok_def)
  then show ?thesis by (simp add: refcount_of_def find_rid_None)
qed

lemma refcount_after_pair:
  assumes wf: "rcache_wf c" and g: "get env c addr len p = (Inr k, c1)"
  shows "refcount_of (put c1 k) k = Some (case refcount_of c k of None \<Rightarrow> 0 | Some m \<Rightarrow> m)"
  using wf g
proof (cases rule: get_cases)
  case (hit kd r)
  then have k: "k = rid r" and c1: "c1 = hold c (rid r)" by simp_all
  have "r \<in> set (regions c)" using hit(3) by (simp add: pgtable_def)
  with wf have "refcount_of c (rid r) = Some (refcount r)" by (rule refcount_of_in)
  then show ?thesis by (simp add: k c1 put_hold[OF wf hit(3)])
next
  case (created kd ns ne np)
  then have k: "k = next_rid c" by simp
  let ?r = "created_region c ns ne np kd"
  have wf1: "rcache_wf c1" using wf g by (rule rcache_wf_get)
  have in1: "?r \<in> set (regions c1)"
    unfolding created(11) by (rule created_in_after_create)
  have rk: "rid ?r = k" by (simp add: created_region_def k)
  have "put c1 (rid ?r) =
          c1\<lparr> regions := map (\<lambda>x. if rid x = rid ?r then x\<lparr> refcount := refcount x - 1 \<rparr> else x)
                              (regions c1) \<rparr>"
    by (rule put_valid[OF wf1 in1]) (simp_all add: created_region_def)
  then have in2: "?r\<lparr> refcount := 0 \<rparr> \<in> set (regions (put c1 k))"
    using in1 rk by (force simp: created_region_def)
  have "rcache_wf (put c1 k)" using wf1 by (rule rcache_wf_put)
  from refcount_of_in[OF this in2] rk refcount_of_fresh[OF wf] show ?thesis
    by (simp add: k)
qed simp_all

lemma get_failure_state:
  assumes wf: "rcache_wf c" and len: "0 < len" and cl: "classify env addr len = Inr k"
    and g: "get env c addr len p = (Inl err, c')"
  shows "err = UCS_ERR_IO_ERROR \<and>
         c' = drain (invalidate_range c (align_down (alignment c) addr)
                       (align_up (alignment c) (addr + len)))"
  using wf g
proof (cases rule: get_cases)
  case bad_arg
  with len show ?thesis by simp
next
  case (unclassified e)
  with cl show ?thesis by simp
qed simp_all

lemma slow_merge_offers:
  assumes "os_supports env (start_addr (offered_region env c s e p k))
             (end_addr (offered_region env c s e p k)) (prot (offered_region env c s e p k))"
    and "overl = range_iter c s e"
  shows "slow_merge env c s e p k overl =
           register_region env c s e (offered_region env c s e p k)"
  using assms
  by (auto simp: slow_merge_def offered_region_def Let_def new_region_def split: if_splits)

lemma get_offers:
  assumes len: "0 < len" and cl: "classify env addr len = Inr k"
    and s: "s = align_down (alignment c) addr" and e: "e = align_up (alignment c) (addr + len)"
    and nohit: "\<forall>r \<in> set (pgtable c). \<not> is_hit r s e p k"
    and reached: "range_iter c s e = [] \<or>
        os_supports env (start_addr (offered_region env c s e p k))
          (end_addr (offered_region env c s e p k)) (prot (offered_region env c s e p k))"
  shows "get env c addr len p = register_region env c s e (offered_region env c s e p k)"
proof -
  have fp: "fast_path c s e p k = None"
  proof (cases "lookup_containing c s")
    case None
    then show ?thesis by (simp add: fast_path_def)
  next
    case (Some r)
    then have "r \<in> set (pgtable c)"
      by (auto simp: lookup_containing_def dest: find_Some_in)
    with nohit Some show ?thesis by (simp add: fast_path_def)
  qed
  have sp: "slow_path env c s e p k = register_region env c s e (offered_region env c s e p k)"
  proof (cases "range_iter c s e")
    case Nil
    then show ?thesis
      by (simp add: slow_path_def offered_region_def merged_start_def merged_end_def
            merged_prot_def new_region_def)
  next
    case (Cons r rest)
    then have "r \<in> set (pgtable c)"
      by (metis filter_is_subset list.set_intros(1) range_iter_def subsetD)
    with nohit have nh: "\<not> is_hit r s e p k" by blast
    from reached Cons have os: "os_supports env (start_addr (offered_region env c s e p k))
          (end_addr (offered_region env c s e p k)) (prot (offered_region env c s e p k))"
      by simp
    have "slow_path env c s e p k = slow_merge env c s e p k (r # rest)"
      using Cons nh by (cases rest) (simp_all add: slow_path_def)
    also have "\<dots> = register_region env c s e (offered_region env c s e p k)"
      using os Cons by (intro slow_merge_offers) simp_all
    finally show ?thesis .
  qed
  show ?thesis
    using len cl fp sp by (simp add: get_def Let_def s e)
qed

lemma get_callback_fails:
  assumes wf: "rcache_wf c" and len: "0 < len" and cl: "classify env addr len = Inr k"
    and s: "s = align_down (alignment c) addr" and e: "e = align_up (alignment c) (addr + len)"
    and nohit: "\<forall>r \<in> set (pgtable c). \<not> is_hit r s e p k"
    and reached: "range_iter c s e = [] \<or>
        os_supports env (start_addr (offered_region env c s e p k))
          (end_addr (offered_region env c s e p k)) (prot (offered_region env c s e p k))"
    and fail: "mem_reg env (offered_region env c s e p k) \<noteq> UCS_OK"
  shows "get env c addr len p = (Inl UCS_ERR_IO_ERROR, drain (invalidate_range c s e))"
proof -
  let ?r = "offered_region env c s e p k"
  have g: "get env c addr len p = register_region env c s e ?r"
    using len cl s e nohit reached by (rule get_offers)
  obtain c'' where c'': "get env c addr len p = (Inl UCS_ERR_IO_ERROR, c'')"
    using fail unfolding g register_region_def Let_def by simp
  from get_failure_state[OF wf len cl c''] c'' show ?thesis
    by (simp add: s e)
qed

lemma invalidate_range_none:
  assumes "\<forall>r \<in> set (pgtable c). \<not> intersects r lo hi"
  shows "invalidate_range c lo hi = c"
proof -
  have "map (\<lambda>r. if in_pgtable r \<and> intersects r lo hi then invalidate r else r) (regions c)
          = regions c"
    using assms by (intro map_idI) (auto simp: pgtable_def)
  then show ?thesis by (simp add: invalidate_range_def)
qed

lemma drain_fixed:
  "(drain c = c) = (\<forall>r \<in> set (regions c). \<not> (INVALID \<in> flags r \<and> refcount r = 0))"
  by (cases c) (simp add: drain_def filter_id_conv)

lemma drain_idem: "drain (drain c) = drain c"
  by (simp add: drain_fixed) (simp add: drain_def)

lemma get_fresh:
  assumes wf: "rcache_wf c" and len: "0 < len" and cl: "classify env addr len = Inr k"
    and none: "\<forall>r \<in> set (pgtable c).
        \<not> intersects r (align_down (alignment c) addr) (align_up (alignment c) (addr + len))"
    and dr: "drain c = c"
    and ok: "mem_reg env (new_region c (align_down (alignment c) addr)
                           (align_up (alignment c) (addr + len)) p k) = UCS_OK"
  shows "get env c addr len p =
           (Inr (next_rid c),
            c\<lparr> regions := regions c @
                   [created_region c (align_down (alignment c) addr)
                      (align_up (alignment c) (addr + len)) p k],
               next_rid := Suc (next_rid c) \<rparr>)"
proof -
  let ?s = "align_down (alignment c) addr" and ?e = "align_up (alignment c) (addr + len)"
  have "0 < alignment c" using wf by (simp add: rcache_wf_def)
  from normalized_nonempty[OF this len, of addr] have se: "?s < ?e" .
  have ri: "range_iter c ?s ?e = []"
    using none by (simp add: range_iter_def filter_empty_conv)
  have "\<forall>r \<in> set (pgtable c). \<not> (start_addr r \<le> ?s \<and> ?s < end_addr r)"
    using none se by (auto simp: intersects_def)
  then have "lookup_containing c ?s = None"
    by (simp add: lookup_containing_def find_None_iff)
  then have fp: "fast_path c ?s ?e p k = None" by (simp add: fast_path_def)
  have inv: "invalidate_range c ?s ?e = c" using none by (rule invalidate_range_none)
  have "\<forall>r \<in> set (regions c). \<not> (INVALID \<in> flags r \<and> refcount r = 0)"
    using dr by (simp add: drain_fixed)
  then have "drain (c\<lparr> regions := regions c @ [created_region c ?s ?e p k],
                       next_rid := Suc (next_rid c) \<rparr>)
          = c\<lparr> regions := regions c @ [created_region c ?s ?e p k],
               next_rid := Suc (next_rid c) \<rparr>"
    by (simp add: drain_fixed created_region_def)
  then have ac: "after_create c ?s ?e (created_region c ?s ?e p k) =
          c\<lparr> regions := regions c @ [created_region c ?s ?e p k],
               next_rid := Suc (next_rid c) \<rparr>"
    by (simp add: after_create_def inv)
  show ?thesis
    using len cl fp ri ok ac
    by (simp add: get_def Let_def slow_path_def register_region_eq[OF wf])
qed

subsection \<open>Concrete runs\<close>

lemmas rcache_defs =
  get_def fast_path_def lookup_containing_def pgtable_def in_pgtable_def slow_path_def
  range_iter_def intersects_def register_region_def new_region_def insert_region_def
  invalidate_range_def invalidate_def finish_register_def remove_region_def drain_def
  align_down_def align_up_def is_hit_def slow_merge_def merged_start_def merged_end_def
  merged_prot_def os_supports_def hold_def put_def empty_cache_def Let_def
  insert_Diff_if

lemma ex_cache1_reached:
  "put (snd (get ex_env_ok (empty_cache 4) 0 8 ex_RW)) 0 = ex_cache1"
  by (simp add: rcache_defs ex_env_ok_def ex_RW_def ex_cache1_def ex_region0_def)

lemma ex_get_fail:
  "get ex_env_fail ex_cache1 4 8 ex_RW =
     (Inl UCS_ERR_IO_ERROR, \<lparr> alignment = 4, regions = [], next_rid = 1 \<rparr>)"
  by (simp add: rcache_defs ex_env_fail_def ex_RW_def ex_cache1_def ex_region0_def)

text \<open>
  Three tests of \<^verbatim>\<open>test_rcache.cc\<close> on the model, with pages of 4 bytes: \<^verbatim>\<open>merge\<close>
  (lines 332 to 378), \<^verbatim>\<open>merge_with_unwritable\<close> (lines 443 to 469), where the region
  that is not merged is out of the page table after the call, and
  \<^verbatim>\<open>merge_invalid_prot_slow\<close> (lines 660 to 689), where the call fails and the region it
  overlapped is deregistered.
\<close>

lemma test_merge:
  "(case get (test_env (\<lambda>pg. {PROT_READ, PROT_WRITE})) (empty_cache 4) 0 16 ex_RW of
      (r1, c1) \<Rightarrow>
    case get (test_env (\<lambda>pg. {PROT_READ, PROT_WRITE})) c1 20 32 ex_RW of
      (r2, c2) \<Rightarrow>
    case get (test_env (\<lambda>pg. {PROT_READ, PROT_WRITE})) c2 4 44 ex_RW of
      (r3, c3) \<Rightarrow>
    case get (test_env (\<lambda>pg. {PROT_READ, PROT_WRITE})) c3 0 16 ex_RW of
      (r4, c4) \<Rightarrow>
      r1 = Inr 0 \<and> r2 = Inr 1 \<and> r3 = Inr 2 \<and> r4 = Inr 2 \<and>
      map (\<lambda>r. (rid r, start_addr r, end_addr r, in_pgtable r)) (regions c3) =
        [(0, 0, 16, False), (1, 20, 52, False), (2, 0, 52, True)])"
  by code_simp

lemma test_merge_with_unwritable:
  "(case get (test_env (\<lambda>pg. {PROT_READ})) (empty_cache 4) 0 56 {PROT_READ} of
      (r1, c1) \<Rightarrow>
    case get (test_env (\<lambda>pg. if 10 \<le> pg then {PROT_WRITE} else {PROT_READ}))
           c1 40 32 {PROT_WRITE} of
      (r2, c2) \<Rightarrow>
      r1 = Inr 0 \<and> r2 = Inr 1 \<and>
      regions c2 =
        [\<lparr> rid = 0, start_addr = 0, end_addr = 56, prot = {PROT_READ},
            mem_kind = KIND_HOST, refcount = 1, flags = {INVALID} \<rparr>,
         \<lparr> rid = 1, start_addr = 40, end_addr = 72, prot = {PROT_WRITE},
            mem_kind = KIND_HOST, refcount = 1, flags = {IN_PGTABLE} \<rparr>])"
  by code_simp

lemma test_merge_invalid_prot_slow:
  "(case get (test_env (\<lambda>pg. {PROT_READ, PROT_WRITE})) (empty_cache 1) 0 40 ex_RW of
      (r1, c1) \<Rightarrow>
    case get (test_env (\<lambda>pg. if pg < 10 then {PROT_READ} else {PROT_READ, PROT_WRITE}))
           (put c1 0) 39 32 {PROT_WRITE} of
      (r2, c2) \<Rightarrow>
      r1 = Inr 0 \<and> r2 = Inl UCS_ERR_IO_ERROR \<and> regions c2 = [])"
  by code_simp

subsection \<open>The claims about the registration cache\<close>

text \<open>
  C7. In a cache that satisfies the invariants, let a \<open>get\<close> return region \<open>k\<close>. Then \<open>n\<close>
  pairs of that \<open>get\<close> and a \<open>put\<close>, with no event between them, return \<open>k\<close> every time;
  the \<open>get\<close> after a \<open>put\<close> gives back the cache as it was before that \<open>put\<close>, so every
  later pair leaves the whole cache, and with it the refcount of \<open>k\<close>, as it found it; the
  same \<open>get\<close> repeated while \<open>k\<close> is still held returns \<open>k\<close> too; and after the first pair
  the refcount of \<open>k\<close> is what it was before the first \<open>get\<close> (zero for a region that the
  first \<open>get\<close> created). The classification is a function of the range, as
  it is for host memory, which always classifies as host.
\<close>

theorem get_put_pairs_same_region:
  assumes wf: "rcache_wf c" and dj: "pgtable_disjoint c"
    and g: "get env c addr len p = (Inr k, c1)"
  shows "get_put_pairs n env c addr len p =
           (replicate n (Inr k), if n = 0 then c else put c1 k) \<and>
         get env (put c1 k) addr len p = (Inr k, c1) \<and>
         get env c1 addr len p = (Inr k, hold c1 k) \<and>
         refcount_of (put c1 k) k =
           Some (case refcount_of c k of None \<Rightarrow> 0 | Some m \<Rightarrow> m)"
proof (intro conjI)
  show "get env c1 addr len p = (Inr k, hold c1 k)"
    using wf dj g by (rule get_repeat)
  have again: "get env (put c1 k) addr len p = (Inr k, c1)"
    using wf dj g by (rule get_again)
  then show "get env (put c1 k) addr len p = (Inr k, c1)" .
  show "get_put_pairs n env c addr len p =
           (replicate n (Inr k), if n = 0 then c else put c1 k)"
  proof (cases n)
    case 0
    then show ?thesis by simp
  next
    case (Suc m)
    have "get_put_pairs m env (put c1 k) addr len p = (replicate m (Inr k), put c1 k)"
      using again by (rule get_put_pairs_fixed) simp
    with Suc g show ?thesis by simp
  qed
  show "refcount_of (put c1 k) k = Some (case refcount_of c k of None \<Rightarrow> 0 | Some m \<Rightarrow> m)"
    using wf g by (rule refcount_after_pair)
qed

theorem get_put_pairs_same_region_witness:
  "get ex_env_ok ex_cache1 0 8 ex_RW = (Inr 0, ex_cache_held) \<and>
   get_put_pairs 3 ex_env_ok ex_cache1 0 8 ex_RW = ([Inr 0, Inr 0, Inr 0], ex_cache1) \<and>
   refcount_of ex_cache1 0 = Some 0 \<and>
   refcount_of (put ex_cache_held 0) 0 = Some 0"
proof -
  have wf: "rcache_wf ex_cache1"
    by (simp add: rcache_wf_def region_ok_def ex_cache1_def ex_region0_def)
  have dj: "pgtable_disjoint ex_cache1"
    by (simp add: pgtable_disjoint_def pgtable_def in_pgtable_def ex_cache1_def ex_region0_def)
  have g: "get ex_env_ok ex_cache1 0 8 ex_RW = (Inr 0, ex_cache_held)"
    by (simp add: rcache_defs ex_env_ok_def ex_RW_def ex_cache1_def ex_region0_def
          ex_cache_held_def)
  have p: "put ex_cache_held 0 = ex_cache1"
    by (simp add: put_def ex_cache_held_def ex_cache1_def ex_region0_def)
  have r: "refcount_of ex_cache1 0 = Some 0"
    by (simp add: refcount_of_def ex_cache1_def ex_region0_def)
  from get_put_pairs_same_region[OF wf dj g, of 3] g p r show ?thesis
    by (simp add: numeral_3_eq_3)
qed




end
